theory Spec2Isabelle
  imports Complex_Main "HOL-Library.Word"
begin

unbundle bit_operations_syntax

section \<open>Data model of \<open>Scan/MatrixARM/matrix_scan.c\<close>\<close>

text \<open>
  The key states of the debounce state machine (the enum \<open>KeyPosition\<close>; the value
  \<open>KeyState_Invalid\<close> marks a cell that has not been resolved in the current pass).
\<close>

datatype KeyPosition =
  KeyState_Off | KeyState_Press | KeyState_Hold | KeyState_Release | KeyState_Invalid

text \<open>
  One debounce cell (the struct \<open>KeyState\<close>). The header that declares the struct is not
  part of the sources at hand; the type of the two counters (\<open>DebounceCounter\<close>) is the
  type parameter \<open>'c\<close>, which every function below takes to be an unsigned machine word
  \<open>'w word\<close> of some width. \<open>lastChangeCounter\<close> stores values of the 32-bit
  \<open>Matrix_divCounter\<close> and is compared with it in 32-bit arithmetic.
\<close>

record 'c KeyState =
  prevState :: KeyPosition
  curState :: KeyPosition
  activeCount :: 'c
  inactiveCount :: 'c
  lastChangeCounter :: "32 word"

text \<open>
  The compile-time configuration that \<open>matrix.h\<close> and the generated defines provide:
  the number of strobe (column) and sense (row) pins, the debounce threshold and the
  throttle divider. They are parameters of every function of the model.
\<close>

record 'c config =
  Matrix_colsNum :: nat
  Matrix_rowsNum :: nat
  DebounceDivThreshold_define :: 'c
  DebounceThrottleDiv_define :: nat

definition Matrix_maxKeys :: "'c config \<Rightarrow> nat" where
  "Matrix_maxKeys cfg = Matrix_colsNum cfg * Matrix_rowsNum cfg"

text \<open>
  The loop counters of the C code are \<open>uint8_t\<close>: a loop \<open>for ( uint8_t i = 0; i < n; i++ )\<close>
  ends only when \<open>n\<close> is at most 255, since the counter wraps from 255 to 0. The three
  loops of \<open>Matrix_setup\<close> end exactly in the configurations below.
\<close>

definition config_ok :: "'c config \<Rightarrow> bool" where
  "config_ok cfg \<longleftrightarrow>
     Matrix_colsNum cfg \<le> 255 \<and> Matrix_rowsNum cfg \<le> 255 \<and> Matrix_maxKeys cfg \<le> 255"

text \<open>
  What the module does to the outside world: operations on output pins, the calls of the
  macro module's \<open>Macro_keyState\<close>, and the text sent to the console.
\<close>

datatype Type =
  Type_StrobeOn | Type_StrobeOff | Type_StrobeSetup | Type_Sense | Type_SenseSetup

datatype event =
    CLI_registerDictionary
  | Matrix_pin Type nat
  | Macro_keyState nat KeyPosition
  | Erro_print string
  | Info_msg string
  | Print string
  | PrintHex nat
  | PrintHex_op nat nat

text \<open>The global variables of the module, and the trace of its effects so far.\<close>

record 'c matrix_state =
  Matrix_divCounter :: "32 word"
  Matrix_repeatThreshold :: "32 word"
  Matrix_timesRelease :: "32 word list"
  Matrix_timesPress :: "32 word list"
  Matrix_scanArray :: "'c KeyState list"
  matrixDebugMode :: "8 word"
  matrixDebugStateCounter :: "16 word"
  matrixMaxScans :: "16 word"
  matrixCurScans :: "16 word"
  matrixPrevScans :: "16 word"
  trace :: "event list"

text \<open>
  The ways in which a call does not return a state: it uses the undefined result of
  \<open>__builtin_clzl(0)\<close>, it indexes outside an array, or one of its loops never ends.
\<close>

datatype error = Undefined_clz | Index_out_of_bounds | Loop_never_ends

definition emit :: "event list \<Rightarrow> 'c matrix_state \<Rightarrow> 'c matrix_state" where
  "emit evs s = s\<lparr>trace := trace s @ evs\<rparr>"

definition NL :: string where
  "NL = [CHR 0x0D, CHR 0x0A]"

definition ESC :: char where
  "ESC = CHR 0x1B"

text \<open>The values of the globals when the program starts (static initialisers).\<close>

definition boot_state :: "('w::len) word config \<Rightarrow> 'w word matrix_state" where
  "boot_state cfg =
     \<lparr>Matrix_divCounter = 0,
      Matrix_repeatThreshold = 16,
      Matrix_timesRelease = replicate 32 0,
      Matrix_timesPress = replicate 32 0,
      Matrix_scanArray = replicate (Matrix_maxKeys cfg)
        \<lparr>prevState = KeyState_Off, curState = KeyState_Off, activeCount = 0,
         inactiveCount = 0, lastChangeCounter = 0\<rparr>,
      matrixDebugMode = 0,
      matrixDebugStateCounter = 0,
      matrixMaxScans = 0,
      matrixCurScans = 0,
      matrixPrevScans = 0,
      trace = []\<rparr>"

section \<open>\<open>Matrix_setup\<close>\<close>

text \<open>What the body of \<open>Matrix_setup\<close> prints, configures and assigns.\<close>

definition setup_globals :: "('w::len) word config \<Rightarrow> 'w word matrix_state \<Rightarrow> 'w word matrix_state" where
  "setup_globals cfg s =
     s\<lparr>Matrix_scanArray := replicate (Matrix_maxKeys cfg)
         \<lparr>prevState = KeyState_Off, curState = KeyState_Off, activeCount = 0,
          inactiveCount = DebounceDivThreshold_define cfg, lastChangeCounter = 0\<rparr>,
       matrixMaxScans := 0,
       matrixPrevScans := 0,
       Matrix_timesRelease := replicate 32 0,
       Matrix_timesPress := replicate 32 0,
       trace := trace s
         @ [CLI_registerDictionary, Info_msg ''Columns:  '', PrintHex (Matrix_colsNum cfg)]
         @ map (Matrix_pin Type_StrobeSetup) [0..<Matrix_colsNum cfg]
         @ [Print NL, Info_msg ''Rows:     '', PrintHex (Matrix_rowsNum cfg)]
         @ map (Matrix_pin Type_SenseSetup) [0..<Matrix_rowsNum cfg]
         @ [Print NL, Info_msg ''Max Keys: '', PrintHex (Matrix_maxKeys cfg)]\<rparr>"

text \<open>
  \<open>Matrix_setup\<close> returns when its loops over the strobe pins, the sense pins and the keys
  end.
\<close>

definition Matrix_setup ::
  "('w::len) word config \<Rightarrow> 'w word matrix_state \<Rightarrow> error + 'w word matrix_state" where
  "Matrix_setup cfg s =
     (if config_ok cfg then Inr (setup_globals cfg s) else Inl Loop_never_ends)"

section \<open>\<open>Matrix_keyPositionDebug\<close>\<close>

fun Matrix_keyPositionDebug :: "KeyPosition \<Rightarrow> event" where
  "Matrix_keyPositionDebug KeyState_Off = Print (ESC # ''[1mO'' @ ESC # ''[0m'')"
| "Matrix_keyPositionDebug KeyState_Press = Print (ESC # ''[1;33mP'' @ ESC # ''[0m'')"
| "Matrix_keyPositionDebug KeyState_Hold = Print (ESC # ''[1;32mH'' @ ESC # ''[0m'')"
| "Matrix_keyPositionDebug KeyState_Release = Print (ESC # ''[1;35mR'' @ ESC # ''[0m'')"
| "Matrix_keyPositionDebug KeyState_Invalid = Print (ESC # ''[1;31mI'' @ ESC # ''[0m'')"

section \<open>\<open>Matrix_scan\<close>\<close>

subsection \<open>The histogram bucket\<close>

text \<open>
  \<open>__builtin_clzl\<close> on the 32-bit \<open>unsigned long\<close> of the ARM target: the number of zero
  bits above the most significant one bit, counted from bit 31 downwards. Its result at 0
  is undefined; the model returns \<open>None\<close> there.
\<close>

primrec clz_bits :: "nat \<Rightarrow> 32 word \<Rightarrow> nat" where
  "clz_bits 0 x = 0"
| "clz_bits (Suc n) x = (if bit x n then 0 else Suc (clz_bits n x))"

definition builtin_clzl :: "32 word \<Rightarrow> nat option" where
  "builtin_clzl x = (if x = 0 then None else Some (clz_bits 32 x))"

text \<open>\<open>uint8_t bucket = 31 - __builtin_clzl(diff)\<close>: computed as \<open>int\<close>, stored in 8 bits.\<close>

definition hist_bucket :: "32 word \<Rightarrow> 8 word option" where
  "hist_bucket diff = map_option (\<lambda>n. word_of_int (31 - int n)) (builtin_clzl diff)"

text \<open>
  \<open>Matrix_timesRelease[bucket]++\<close> and \<open>Matrix_timesPress[bucket]++\<close> on an array of 32
  counters of 32 bits. Using the undefined result of \<open>__builtin_clzl(0)\<close>, or an index
  outside the array, is an error of the model.
\<close>

definition hist_incr :: "32 word list \<Rightarrow> 8 word option \<Rightarrow> error + 32 word list" where
  "hist_incr h bucket =
     (case bucket of
        None \<Rightarrow> Inl Undefined_clz
      | Some b \<Rightarrow>
          if unat b < length h then Inr (h[unat b := h ! unat b + 1])
          else Inl Index_out_of_bounds)"

subsection \<open>One debounce cell\<close>

text \<open>\<open>uint8_t key = Matrix_colsNum * sense + strobe\<close>.\<close>

definition key_index :: "'c config \<Rightarrow> nat \<Rightarrow> nat \<Rightarrow> nat" where
  "key_index cfg strobe sense = (Matrix_colsNum cfg * sense + strobe) mod 256"

text \<open>If first scan, reset state (lines 304 to 309).\<close>

definition reset_state :: "16 word \<Rightarrow> 'c KeyState \<Rightarrow> 'c KeyState" where
  "reset_state scanNum st =
     (if scanNum = 0 then st\<lparr>prevState := curState st, curState := KeyState_Invalid\<rparr>
      else st)"

text \<open>
  Increment the count of the level that was sensed, unless it has reached the threshold,
  and right shift the opposing count (lines 318 to 334).
\<close>

definition debounce_count :: "('w::len) word \<Rightarrow> bool \<Rightarrow> 'w word KeyState \<Rightarrow> 'w word KeyState" where
  "debounce_count T detected st =
     (if detected then
        st\<lparr>activeCount := (if activeCount st < T then activeCount st + 1 else activeCount st),
           inactiveCount := drop_bit 1 (inactiveCount st)\<rparr>
      else
        st\<lparr>inactiveCount := (if inactiveCount st < T then inactiveCount st + 1 else inactiveCount st),
           activeCount := drop_bit 1 (activeCount st)\<rparr>)"

text \<open>
  The \<open>switch ( state->prevState )\<close> of the state resolution (lines 359 to 393). It
  returns the cell and the globals it has changed.
\<close>

definition resolve_state ::
  "('w::len) word KeyState \<Rightarrow> 8 word option \<Rightarrow> 'w word matrix_state
     \<Rightarrow> error + ('w word KeyState \<times> 'w word matrix_state)" where
  "resolve_state st bucket s =
     (if prevState st = KeyState_Press \<or> prevState st = KeyState_Hold then
        if activeCount st > inactiveCount st then
          Inr (st\<lparr>curState := KeyState_Hold\<rparr>, s)
        else
          (case hist_incr (Matrix_timesRelease s) bucket of
             Inl e \<Rightarrow> Inl e
           | Inr h \<Rightarrow>
               Inr (st\<lparr>curState := KeyState_Release, lastChangeCounter := Matrix_divCounter s\<rparr>,
                    s\<lparr>Matrix_timesRelease := h\<rparr>))
      else if prevState st = KeyState_Release \<or> prevState st = KeyState_Off then
        if activeCount st > inactiveCount st then
          (case hist_incr (Matrix_timesPress s) bucket of
             Inl e \<Rightarrow> Inl e
           | Inr h \<Rightarrow>
               Inr (st\<lparr>curState := KeyState_Press, lastChangeCounter := Matrix_divCounter s\<rparr>,
                    s\<lparr>Matrix_timesPress := h\<rparr>))
        else
          Inr (st\<lparr>curState := KeyState_Off\<rparr>, s)
      else
        Inr (st, emit [Erro_print ''Matrix scan bug!! Report me!''] s))"

text \<open>Matrix Debug, only if there is a state change (lines 399 to 414).\<close>

definition debug_transition :: "nat \<Rightarrow> 'c KeyState \<Rightarrow> 'c matrix_state \<Rightarrow> 'c matrix_state" where
  "debug_transition key st s =
     (if matrixDebugMode s \<noteq> 0 \<and> curState st \<noteq> prevState st then
        if matrixDebugMode s = 1 \<and> curState st = KeyState_Press then
          emit [PrintHex key, Print '' ''] s
        else if matrixDebugMode s = 2 then
          emit [PrintHex key, Matrix_keyPositionDebug (curState st), Print '' ''] s
        else s
      else s)"

definition store_key :: "nat \<Rightarrow> 'c KeyState \<Rightarrow> 'c matrix_state \<Rightarrow> 'c matrix_state" where
  "store_key key st s = s\<lparr>Matrix_scanArray := (Matrix_scanArray s)[key := st]\<rparr>"

text \<open>
  The body of the inner loop (lines 299 to 415) for the key \<open>key\<close>, with \<open>detected\<close> the
  level read from the sense pin. The C code works on the cell through a pointer into
  \<open>Matrix_scanArray\<close>; the model works on a copy and stores it back on each way out of
  the body. The way out through \<open>continue\<close> (too few ticks since the last change) calls
  neither \<open>Macro_keyState\<close> nor the debug output.
\<close>

definition scan_key ::
  "('w::len) word config \<Rightarrow> 16 word \<Rightarrow> bool \<Rightarrow> nat \<Rightarrow> 'w word matrix_state
     \<Rightarrow> error + 'w word matrix_state" where
  "scan_key cfg scanNum detected key s =
     (if length (Matrix_scanArray s) \<le> key then Inl Index_out_of_bounds
      else
        let st = debounce_count (DebounceDivThreshold_define cfg) detected
                   (reset_state scanNum (Matrix_scanArray s ! key))
        in
          if curState st \<noteq> KeyState_Invalid then Inr (store_key key st s)
          else
            let diff = Matrix_divCounter s - lastChangeCounter st;
                bucket = hist_bucket diff
            in
              if diff < Matrix_repeatThreshold s then
                Inr (store_key key (st\<lparr>curState := prevState st\<rparr>) s)
              else
                (case resolve_state st bucket s of
                   Inl e \<Rightarrow> Inl e
                 | Inr (st', s') \<Rightarrow>
                     Inr (debug_transition key st'
                            (emit [Macro_keyState key (curState st')]
                               (store_key key st' s')))))"

subsection \<open>The scan loops\<close>

text \<open>
  The level of every sense pin while a strobe is on is an input of a scan:
  \<open>rd strobe sense\<close> is what \<open>Matrix_pin( Matrix_rows[ sense ], Type_Sense )\<close> returns.
  The two loops run over the lists of the values their counters take; with more than 255
  values the counter wraps and the loop never ends.
\<close>

fun sense_loop ::
  "('w::len) word config \<Rightarrow> (nat \<Rightarrow> nat \<Rightarrow> bool) \<Rightarrow> 16 word \<Rightarrow> nat \<Rightarrow> nat list
     \<Rightarrow> 'w word matrix_state \<Rightarrow> error + 'w word matrix_state" where
  "sense_loop cfg rd scanNum strobe [] s = Inr s"
| "sense_loop cfg rd scanNum strobe (sense # senses) s =
     (case scan_key cfg scanNum (rd strobe sense) (key_index cfg strobe sense) s of
        Inl e \<Rightarrow> Inl e
      | Inr s' \<Rightarrow> sense_loop cfg rd scanNum strobe senses s')"

fun strobe_loop ::
  "('w::len) word config \<Rightarrow> (nat \<Rightarrow> nat \<Rightarrow> bool) \<Rightarrow> 16 word \<Rightarrow> nat list
     \<Rightarrow> 'w word matrix_state \<Rightarrow> error + 'w word matrix_state" where
  "strobe_loop cfg rd scanNum [] s = Inr s"
| "strobe_loop cfg rd scanNum (strobe # strobes) s =
     (if 255 < Matrix_rowsNum cfg then Inl Loop_never_ends
      else
        (case sense_loop cfg rd scanNum strobe [0..<Matrix_rowsNum cfg]
                (emit [Matrix_pin Type_StrobeOn strobe] s) of
           Inl e \<Rightarrow> Inl e
         | Inr s' \<Rightarrow>
             strobe_loop cfg rd scanNum strobes (emit [Matrix_pin Type_StrobeOff strobe] s')))"

subsection \<open>Throttling, statistics and the state table\<close>

text \<open>
  \<open>!( Matrix_divCounter & (1 << ( DebounceThrottleDiv_define - 1 )) )\<close>, compiled in only
  when the divider is positive (lines 267 to 274).
\<close>

definition throttled :: "'c config \<Rightarrow> 32 word \<Rightarrow> bool" where
  "throttled cfg counter \<longleftrightarrow>
     DebounceThrottleDiv_define cfg > 0 \<and>
     counter AND push_bit (DebounceThrottleDiv_define cfg - 1) 1 = 0"

text \<open>Increment stats counters (lines 277 to 288).\<close>

definition scan_stats :: "16 word \<Rightarrow> 'c matrix_state \<Rightarrow> 'c matrix_state" where
  "scan_stats scanNum s =
     (let s1 = (if scanNum > matrixMaxScans s then s\<lparr>matrixMaxScans := scanNum\<rparr> else s)
      in if scanNum = 0 then s1\<lparr>matrixPrevScans := matrixCurScans s1, matrixCurScans := 0\<rparr>
         else s1\<lparr>matrixCurScans := matrixCurScans s1 + 1\<rparr>)"

text \<open>
  State Table Output Debug (lines 423 to 464): while \<open>matrixDebugStateCounter\<close> is
  positive, a scan decrements it and prints the statistics and one entry for every key.
  The loop over the keys has a \<open>uint8_t\<close> counter.
\<close>

definition state_table_entry :: "nat \<times> ('w::len) word KeyState \<Rightarrow> event list" where
  "state_table_entry e =
     (case e of (key, st) \<Rightarrow>
        (if key mod 4 = 0 then [Print NL] else [])
        @ [Print (ESC # ''[1m0x''), PrintHex_op key 2, Print (ESC # ''[0m''), Print '':'',
           Matrix_keyPositionDebug (prevState st), Matrix_keyPositionDebug (curState st),
           Print '' 0x'', PrintHex_op (unat (activeCount st)) 4,
           Print '' 0x'', PrintHex_op (unat (inactiveCount st)) 4, Print '' ''])"

definition state_table_debug ::
  "('w::len) word config \<Rightarrow> 16 word \<Rightarrow> 'w word matrix_state \<Rightarrow> error + 'w word matrix_state" where
  "state_table_debug cfg scanNum s =
     (if matrixDebugStateCounter s > 0 then
        if 255 < Matrix_maxKeys cfg then Inl Loop_never_ends
        else Inr (emit ([Print NL, Info_msg ''Max scans:      '', PrintHex (unat (matrixMaxScans s)),
               Print NL, Info_msg ''Previous scans: '', PrintHex (unat (matrixPrevScans s)),
               Print NL, Info_msg ''Scan Number:    '', PrintHex (unat scanNum), Print NL,
               Print ''<key>:<previous state><current state> <active count> <inactive count>'']
              @ concat (map state_table_entry (enumerate 0 (Matrix_scanArray s)))
              @ [Print NL])
          (s\<lparr>matrixDebugStateCounter := matrixDebugStateCounter s - 1\<rparr>))
      else Inr s)"

subsection \<open>The scan\<close>

text \<open>
  \<open>Matrix_scan( scanNum )\<close>: the tick, the throttle, the statistics, the loop over the
  strobes and the state table.
\<close>

definition Matrix_scan ::
  "('w::len) word config \<Rightarrow> (nat \<Rightarrow> nat \<Rightarrow> bool) \<Rightarrow> 16 word \<Rightarrow> 'w word matrix_state
     \<Rightarrow> error + 'w word matrix_state" where
  "Matrix_scan cfg rd scanNum s =
     (let s1 = s\<lparr>Matrix_divCounter := Matrix_divCounter s + 1\<rparr>
      in if throttled cfg (Matrix_divCounter s1) then Inr s1
         else if 255 < Matrix_colsNum cfg then Inl Loop_never_ends
         else
           (case strobe_loop cfg rd scanNum [0..<Matrix_colsNum cfg] (scan_stats scanNum s1) of
              Inl e \<Rightarrow> Inl e
            | Inr s2 \<Rightarrow> state_table_debug cfg scanNum s2))"

text \<open>A sequence of calls of \<open>Matrix_scan\<close>, each with its \<open>scanNum\<close> and its pin levels.\<close>

fun run_scans ::
  "('w::len) word config \<Rightarrow> (16 word \<times> (nat \<Rightarrow> nat \<Rightarrow> bool)) list \<Rightarrow> 'w word matrix_state
     \<Rightarrow> error + 'w word matrix_state" where
  "run_scans cfg [] s = Inr s"
| "run_scans cfg (call # calls) s =
     (case Matrix_scan cfg (snd call) (fst call) s of
        Inl e \<Rightarrow> Inl e
      | Inr s' \<Rightarrow> run_scans cfg calls s')"

section \<open>Concrete configurations and states\<close>

text \<open>A matrix of one strobe and one sense pin with 16-bit counters, not throttled.\<close>

definition cfg_1x1 :: "16 word config" where
  "cfg_1x1 = \<lparr>Matrix_colsNum = 1, Matrix_rowsNum = 1,
              DebounceDivThreshold_define = 0xFFFF, DebounceThrottleDiv_define = 0\<rparr>"

text \<open>Its only cell, not yet resolved, with the given previous state and counters.\<close>

definition one_key_state ::
  "KeyPosition \<Rightarrow> 16 word \<Rightarrow> 16 word \<Rightarrow> 32 word \<Rightarrow> 16 word matrix_state" where
  "one_key_state prev active inactive counter =
     (boot_state cfg_1x1)
       \<lparr>Matrix_divCounter := counter,
        Matrix_scanArray :=
          [\<lparr>prevState = prev, curState = KeyState_Invalid, activeCount = active,
            inactiveCount = inactive, lastChangeCounter = 0\<rparr>]\<rparr>"

text \<open>A state whose only cell has no valid previous state.\<close>

definition unresolved_state :: "16 word matrix_state" where
  "unresolved_state =
     (boot_state cfg_1x1)
       \<lparr>Matrix_divCounter := 100,
        Matrix_scanArray :=
          [\<lparr>prevState = KeyState_Invalid, curState = KeyState_Invalid, activeCount = 0,
            inactiveCount = 0xFFFF, lastChangeCounter = 0\<rparr>]\<rparr>"

definition curState_after :: "error + 'c matrix_state \<Rightarrow> nat \<Rightarrow> KeyPosition option" where
  "curState_after r key =
     (case r of Inl e \<Rightarrow> None | Inr s \<Rightarrow> Some (curState (Matrix_scanArray s ! key)))"

text \<open>Sense pins that all read closed, or all read open, during a scan.\<close>

definition all_closed :: "nat \<Rightarrow> nat \<Rightarrow> bool" where
  "all_closed strobe sense = True"

definition all_open :: "nat \<Rightarrow> nat \<Rightarrow> bool" where
  "all_open strobe sense = False"

text \<open>The one-key matrix right after \<open>Matrix_setup\<close>, and after some scans were counted.\<close>

definition start_state :: "16 word matrix_state" where
  "start_state = setup_globals cfg_1x1 (boot_state cfg_1x1)"

definition stats_state :: "16 word matrix_state" where
  "stats_state = (setup_globals cfg_1x1 (boot_state cfg_1x1))\<lparr>matrixMaxScans := 2, matrixCurScans := 2\<rparr>"

text \<open>The same matrix scanned at half rate, before a call that the throttle skips.\<close>

definition cfg_throttled :: "16 word config" where
  "cfg_throttled = cfg_1x1\<lparr>DebounceThrottleDiv_define := 1\<rparr>"

definition throttle_state :: "16 word matrix_state" where
  "throttle_state = (setup_globals cfg_throttled (boot_state cfg_throttled))\<lparr>Matrix_divCounter := 1\<rparr>"

definition result_of :: "('c matrix_state \<Rightarrow> 'a) \<Rightarrow> error + 'c matrix_state \<Rightarrow> 'a option" where
  "result_of field r = (case r of Inl e \<Rightarrow> None | Inr s \<Rightarrow> Some (field s))"

section \<open>Predicates on states and traces\<close>

text \<open>The arrays have the sizes of their declarations.\<close>

definition arrays_ok :: "'c config \<Rightarrow> 'c matrix_state \<Rightarrow> bool" where
  "arrays_ok cfg s \<longleftrightarrow>
     length (Matrix_scanArray s) = Matrix_maxKeys cfg \<and>
     length (Matrix_timesRelease s) = 32 \<and>
     length (Matrix_timesPress s) = 32"

text \<open>What the scan of the keys leaves alone: the scalar globals and the array sizes.\<close>

definition globals_kept :: "'c matrix_state \<Rightarrow> 'c matrix_state \<Rightarrow> bool" where
  "globals_kept s s' \<longleftrightarrow>
     Matrix_divCounter s' = Matrix_divCounter s \<and>
     Matrix_repeatThreshold s' = Matrix_repeatThreshold s \<and>
     matrixDebugMode s' = matrixDebugMode s \<and>
     matrixDebugStateCounter s' = matrixDebugStateCounter s \<and>
     matrixMaxScans s' = matrixMaxScans s \<and>
     matrixCurScans s' = matrixCurScans s \<and>
     matrixPrevScans s' = matrixPrevScans s \<and>
     length (Matrix_scanArray s') = length (Matrix_scanArray s) \<and>
     length (Matrix_timesRelease s') = length (Matrix_timesRelease s) \<and>
     length (Matrix_timesPress s') = length (Matrix_timesPress s)"

text \<open>The calls of \<open>Macro_keyState\<close> in a trace, in order, and how many are for one key.\<close>

fun keyState_calls :: "event list \<Rightarrow> (nat \<times> KeyPosition) list" where
  "keyState_calls [] = []"
| "keyState_calls (Macro_keyState key st # evs) = (key, st) # keyState_calls evs"
| "keyState_calls (ev # evs) = keyState_calls evs"

definition calls_for :: "nat \<Rightarrow> event list \<Rightarrow> nat" where
  "calls_for key evs = length (filter (\<lambda>c. fst c = key) (keyState_calls evs))"

text \<open>The calls of a scan that starts with every cell resolved: none carries
  \<open>KeyState_Invalid\<close>, and there is none at all unless \<open>scanNum\<close> is 0.\<close>

definition valid_calls :: "16 word \<Rightarrow> event list \<Rightarrow> bool" where
  "valid_calls scanNum evs \<longleftrightarrow>
     (\<forall>c \<in> set (keyState_calls evs). snd c \<noteq> KeyState_Invalid)
     \<and> (scanNum \<noteq> 0 \<longrightarrow> keyState_calls evs = [])"

text \<open>Every cell has a resolved state; every counter is at most the threshold.\<close>

definition all_resolved :: "'c matrix_state \<Rightarrow> bool" where
  "all_resolved s \<longleftrightarrow> (\<forall>c \<in> set (Matrix_scanArray s). curState c \<noteq> KeyState_Invalid)"

definition counts_bounded :: "('w::len) word \<Rightarrow> 'w word matrix_state \<Rightarrow> bool" where
  "counts_bounded T s \<longleftrightarrow>
     (\<forall>c \<in> set (Matrix_scanArray s). activeCount c \<le> T \<and> inactiveCount c \<le> T)"

text \<open>How often the loops of one scan come to the key \<open>k\<close>.\<close>

definition visits :: "'c config \<Rightarrow> nat \<Rightarrow> nat \<Rightarrow> nat list \<Rightarrow> nat" where
  "visits cfg k strobe senses = length (filter (\<lambda>sense. key_index cfg strobe sense = k) senses)"

definition all_visits :: "'c config \<Rightarrow> nat \<Rightarrow> nat list \<Rightarrow> nat" where
  "all_visits cfg k strobes =
     sum_list (map (\<lambda>strobe. visits cfg k strobe [0..<Matrix_rowsNum cfg]) strobes)"

text \<open>The histogram buckets below the logarithm of the repeat threshold are unchanged.\<close>

definition low_buckets_kept :: "'c matrix_state \<Rightarrow> 'c matrix_state \<Rightarrow> bool" where
  "low_buckets_kept s s' \<longleftrightarrow>
     (\<forall>i. 2 ^ Suc i \<le> unat (Matrix_repeatThreshold s) \<longrightarrow>
        Matrix_timesRelease s' ! i = Matrix_timesRelease s ! i
        \<and> Matrix_timesPress s' ! i = Matrix_timesPress s ! i)"

section \<open>The histogram bucket is the floor of the binary logarithm\<close>

lemma clz_bits_le: "clz_bits n x \<le> n"
  by (induction n) auto

lemma clz_bits_top_bit: "clz_bits n x < n \<Longrightarrow> bit x (n - 1 - clz_bits n x)"
  by (induction n) (auto split: if_splits)

lemma clz_bits_zero_above: "n - clz_bits n x \<le> i \<Longrightarrow> i < n \<Longrightarrow> \<not> bit x i"
proof (induction n)
  case 0
  then show ?case by simp
next
  case (Suc n)
  then show ?case
    by (cases "bit x n") (auto simp: less_Suc_eq)
qed

lemma clz_bits_full: "clz_bits n x = n \<Longrightarrow> i < n \<Longrightarrow> \<not> bit x i"
  using clz_bits_zero_above [of n x i] by simp

lemma nat_bit_lower: "bit (m::nat) b \<Longrightarrow> 2 ^ b \<le> m"
proof (rule ccontr)
  assume b: "bit m b" and "\<not> 2 ^ b \<le> m"
  then have "m div 2 ^ b = 0" by simp
  with b show False by (simp add: bit_iff_odd)
qed

lemma nat_no_bits_upper:
  assumes "\<And>i. b < i \<Longrightarrow> \<not> bit (m::nat) i"
  shows "m < 2 ^ Suc b"
proof -
  have "take_bit (Suc b) m = m"
  proof (rule bit_eqI)
    fix i
    show "bit (take_bit (Suc b) m) i \<longleftrightarrow> bit m i"
      using assms [of i] by (cases "b < i") (auto simp: bit_take_bit_iff)
  qed
  moreover have "take_bit (Suc b) m < 2 ^ Suc b"
    by (rule take_bit_nat_less_exp)
  ultimately show ?thesis by simp
qed

lemma clzl_bounds:
  assumes "x \<noteq> 0"
  shows "clz_bits 32 x \<le> 31 \<and> 2 ^ (31 - clz_bits 32 x) \<le> unat x
    \<and> unat x < 2 ^ Suc (31 - clz_bits 32 x)"
proof -
  let ?c = "clz_bits 32 x"
  have c32: "?c < 32"
  proof (rule ccontr)
    assume "\<not> ?c < 32"
    with clz_bits_le [of 32 x] have full: "?c = 32" by simp
    have "x = 0"
    proof (rule bit_word_eqI)
      fix i assume "i < LENGTH(32)"
      then show "bit x i \<longleftrightarrow> bit (0 :: 32 word) i"
        using clz_bits_full [OF full, of i] by simp
    qed
    with assms show False by simp
  qed
  have top: "bit (unat x) (31 - ?c)"
    using clz_bits_top_bit [OF c32] by (simp add: bit_unsigned_iff)
  have above: "\<not> bit (unat x) i" if "31 - ?c < i" for i
  proof (cases "i < 32")
    case True
    with that have "32 - ?c \<le> i" by simp
    from clz_bits_zero_above [OF this True] show ?thesis by (simp add: bit_unsigned_iff)
  next
    case False
    then show ?thesis using bit_imp_le_length [of x i] by (auto simp: bit_unsigned_iff)
  qed
  from c32 nat_bit_lower [OF top] nat_no_bits_upper [of "31 - ?c" "unat x"] above
  show ?thesis by simp
qed

lemma bucket_value:
  assumes "c \<le> 31"
  shows "unat (word_of_int (31 - int c) :: 8 word) = 31 - c"
proof -
  have "31 - int c = int (31 - c)" using assms by simp
  then have "(word_of_int (31 - int c) :: 8 word) = word_of_nat (31 - c)"
    by (simp only: of_int_of_nat_eq)
  then have "unat (word_of_int (31 - int c) :: 8 word) = (31 - c) mod 2 ^ LENGTH(8)"
    by (simp only: unat_of_nat)
  then show ?thesis by simp
qed

lemma unat_exp_32:
  assumes "k < 32"
  shows "unat (2 ^ k :: 32 word) = 2 ^ k"
proof -
  have "(2 ^ k :: 32 word) = word_of_nat (2 ^ k)" by simp
  then have "unat (2 ^ k :: 32 word) = 2 ^ k mod 2 ^ LENGTH(32)"
    by (simp only: unat_of_nat)
  moreover have "(2::nat) ^ k < 2 ^ LENGTH(32)"
    using assms by (intro power_strict_increasing) simp_all
  ultimately show ?thesis by simp
qed

lemma hist_bucket_floor_log:
  assumes "diff \<noteq> 0"
  shows "\<exists>b. hist_bucket diff = Some b \<and> unat b \<le> 31
           \<and> int (unat b) = \<lfloor>log 2 (real (unat diff))\<rfloor>"
proof -
  let ?c = "clz_bits 32 diff"
  from clzl_bounds [OF assms] have c: "?c \<le> 31"
    and lo: "2 ^ (31 - ?c) \<le> unat diff" and hi: "unat diff < 2 ^ (31 - ?c + 1)"
    by simp_all
  have b: "hist_bucket diff = Some (word_of_int (31 - int ?c))"
    using assms by (simp add: hist_bucket_def builtin_clzl_def)
  have u: "unat (word_of_int (31 - int ?c) :: 8 word) = 31 - ?c"
    using c by (rule bucket_value)
  have "\<lfloor>log (real 2) (real (unat diff))\<rfloor> = int (31 - ?c)"
    by (rule floor_log_nat_eq_if [OF lo hi]) simp
  then have fl: "\<lfloor>log 2 (real (unat diff))\<rfloor> = int (31 - ?c)" by simp
  show ?thesis
  proof (intro exI conjI)
    show "hist_bucket diff = Some (word_of_int (31 - int ?c))" by (rule b)
    show "unat (word_of_int (31 - int ?c) :: 8 word) \<le> 31" using c by (simp only: u)
    show "int (unat (word_of_int (31 - int ?c) :: 8 word)) = \<lfloor>log 2 (real (unat diff))\<rfloor>"
      by (simp only: u fl)
  qed
qed

lemma bucket_index:
  assumes "k \<le> 31"
  shows "unat (word_of_nat k :: 8 word) = k"
proof -
  have "unat (word_of_nat k :: 8 word) = k mod 2 ^ LENGTH(8)"
    by (simp only: unat_of_nat)
  with assms show ?thesis by simp
qed

lemma hist_bucket_power:
  assumes "k \<le> 31"
  shows "hist_bucket (2 ^ k) = Some (word_of_nat k)"
proof -
  have k32: "k < 32" using assms by simp
  have u: "unat (2 ^ k :: 32 word) = 2 ^ k"
    using k32 by (rule unat_exp_32)
  have nz: "(2 ^ k :: 32 word) \<noteq> 0"
    using k32 by simp
  let ?c = "clz_bits 32 (2 ^ k :: 32 word)"
  from clzl_bounds [OF nz] u have c: "?c \<le> 31"
    and lo: "(2::nat) ^ (31 - ?c) \<le> 2 ^ k" and hi: "(2::nat) ^ k < 2 ^ Suc (31 - ?c)"
    by simp_all
  from lo have "31 - ?c \<le> k" by (simp only: power_increasing_iff) 
  moreover from hi have "k < Suc (31 - ?c)" by (simp only: power_strict_increasing_iff)
  ultimately have "31 - ?c = k" by simp
  then have "31 - int ?c = int k" using c by simp
  then have "(word_of_int (31 - int ?c) :: 8 word) = word_of_nat k"
    by (simp only: of_int_of_nat_eq)
  moreover have "hist_bucket (2 ^ k) = Some (word_of_int (31 - int ?c))"
    using nz by (simp add: hist_bucket_def builtin_clzl_def)
  ultimately show ?thesis by (simp only:)
qed

text \<open>
  Claim C6, as the code has it. For every elapsed-tick delta other than 0 the bucket is
  defined, lies in 0..31 and is the floor of the binary logarithm of the delta; a delta
  of \<open>2 ^ k\<close> with \<open>k\<close> in 0..31 lands in bucket \<open>k\<close>. (Nothing clamps a delta of 0:
  see the counterexample below.)
\<close>

theorem hist_bucket_correct:
  "(diff \<noteq> 0 \<longrightarrow>
      (\<exists>b. hist_bucket diff = Some b \<and> unat b \<le> 31
         \<and> int (unat b) = \<lfloor>log 2 (real (unat diff))\<rfloor>))
   \<and> (k \<le> 31 \<longrightarrow>
      hist_bucket (2 ^ k) = Some (word_of_nat k) \<and> unat (word_of_nat k :: 8 word) = k)"
  using hist_bucket_floor_log [of diff] hist_bucket_power [of k] bucket_index [of k] by blast

theorem hist_bucket_correct_witness:
  "(16 :: 32 word) \<noteq> 0 \<and> (4 :: nat) \<le> 31
   \<and> (\<exists>b. hist_bucket 16 = Some b \<and> unat b \<le> 31
         \<and> int (unat b) = \<lfloor>log 2 (real (unat (16 :: 32 word)))\<rfloor>)
   \<and> hist_bucket (2 ^ 4) = Some (word_of_nat 4)
   \<and> unat (word_of_nat 4 :: 8 word) = 4"
proof -
  have nz: "(16 :: 32 word) \<noteq> 0" by simp
  have le: "(4 :: nat) \<le> 31" by simp
  from hist_bucket_correct [of 16 4] nz le show ?thesis by blast
qed

text \<open>
  Claim C6 as stated says that a delta of 0 is clamped to bucket 0. The code has no
  clamp: \<open>31 - __builtin_clzl(0)\<close> has no defined value, and it is not bucket 0.
\<close>

theorem hist_bucket_zero_counterexample:
  "hist_bucket 0 \<noteq> Some 0"
  by (simp add: hist_bucket_def builtin_clzl_def)

section \<open>One key in one call of \<open>Matrix_scan\<close>\<close>

lemma debounce_count_frame [simp]:
  "curState (debounce_count T d st) = curState st"
  "prevState (debounce_count T d st) = prevState st"
  "lastChangeCounter (debounce_count T d st) = lastChangeCounter st"
  by (simp_all add: debounce_count_def)

lemma reset_state_frame [simp]:
  "lastChangeCounter (reset_state n st) = lastChangeCounter st"
  "activeCount (reset_state n st) = activeCount st"
  "inactiveCount (reset_state n st) = inactiveCount st"
  by (simp_all add: reset_state_def)

lemma hist_incr_defined:
  assumes "diff \<noteq> 0" and "length h = 32"
  shows "\<exists>b. hist_bucket diff = Some b \<and> unat b \<le> 31
           \<and> int (unat b) = \<lfloor>log 2 (real (unat diff))\<rfloor>
           \<and> hist_incr h (hist_bucket diff) = Inr (h[unat b := h ! unat b + 1])"
proof -
  from hist_bucket_floor_log [OF assms(1)] obtain b where
    b: "hist_bucket diff = Some b" "unat b \<le> 31"
       "int (unat b) = \<lfloor>log 2 (real (unat diff))\<rfloor>" by blast
  with assms(2) have "hist_incr h (hist_bucket diff) = Inr (h[unat b := h ! unat b + 1])"
    by (simp add: hist_incr_def)
  with b show ?thesis by blast
qed

lemmas one_key_defs =
  one_key_state_def boot_state_def cfg_1x1_def reset_state_def debounce_count_def

lemma cfg_1x1_ok: "config_ok cfg_1x1" "Matrix_maxKeys cfg_1x1 = 1"
  by (simp_all add: config_ok_def Matrix_maxKeys_def cfg_1x1_def)

text \<open>
  Claim C1. A cell reaches the state resolution when, after the reset and the counting of
  the sample, its \<open>curState\<close> is \<open>KeyState_Invalid\<close> and the ticks \<open>diff\<close> since its last
  change are at least \<open>Matrix_repeatThreshold\<close>. From \<open>Press\<close> or \<open>Hold\<close> it becomes \<open>Hold\<close>
  when \<open>activeCount > inactiveCount\<close>, and otherwise \<open>Release\<close>, with bucket
  \<open>floor (log2 diff)\<close> of \<open>Matrix_timesRelease\<close> incremented and \<open>lastChangeCounter\<close> set
  to \<open>Matrix_divCounter\<close>. From \<open>Release\<close> or \<open>Off\<close> it becomes \<open>Press\<close> when
  \<open>activeCount > inactiveCount\<close>, with the bucket of \<open>Matrix_timesPress\<close> incremented and
  \<open>lastChangeCounter\<close> set, and otherwise \<open>Off\<close>, with no histogram changed and
  \<open>lastChangeCounter\<close> kept. (The arrays have their declared sizes, and the logarithm is
  taken of a \<open>diff\<close> other than 0, which every positive threshold implies.)
\<close>

theorem state_resolution:
  fixes cfg :: "('w::len) word config"
  assumes "key < length (Matrix_scanArray s)"
    and "length (Matrix_timesRelease s) = 32" and "length (Matrix_timesPress s) = 32"
    and "st = debounce_count (DebounceDivThreshold_define cfg) detected
               (reset_state scanNum (Matrix_scanArray s ! key))"
    and "curState st = KeyState_Invalid"
    and "diff = Matrix_divCounter s - lastChangeCounter st"
    and "Matrix_repeatThreshold s \<le> diff"
  shows
    "(prevState st \<in> {KeyState_Press, KeyState_Hold} \<and> activeCount st > inactiveCount st \<longrightarrow>
        (\<exists>s'. scan_key cfg scanNum detected key s = Inr s'
           \<and> curState (Matrix_scanArray s' ! key) = KeyState_Hold
           \<and> lastChangeCounter (Matrix_scanArray s' ! key) = lastChangeCounter st
           \<and> Matrix_timesRelease s' = Matrix_timesRelease s
           \<and> Matrix_timesPress s' = Matrix_timesPress s))
   \<and> (prevState st \<in> {KeyState_Press, KeyState_Hold} \<and> \<not> activeCount st > inactiveCount st
          \<and> diff \<noteq> 0 \<longrightarrow>
        (\<exists>s' b. scan_key cfg scanNum detected key s = Inr s'
           \<and> hist_bucket diff = Some b
           \<and> int (unat b) = \<lfloor>log 2 (real (unat diff))\<rfloor>
           \<and> curState (Matrix_scanArray s' ! key) = KeyState_Release
           \<and> lastChangeCounter (Matrix_scanArray s' ! key) = Matrix_divCounter s
           \<and> Matrix_timesRelease s'
               = (Matrix_timesRelease s)[unat b := Matrix_timesRelease s ! unat b + 1]
           \<and> Matrix_timesPress s' = Matrix_timesPress s))
   \<and> (prevState st \<in> {KeyState_Release, KeyState_Off} \<and> activeCount st > inactiveCount st
          \<and> diff \<noteq> 0 \<longrightarrow>
        (\<exists>s' b. scan_key cfg scanNum detected key s = Inr s'
           \<and> hist_bucket diff = Some b
           \<and> int (unat b) = \<lfloor>log 2 (real (unat diff))\<rfloor>
           \<and> curState (Matrix_scanArray s' ! key) = KeyState_Press
           \<and> lastChangeCounter (Matrix_scanArray s' ! key) = Matrix_divCounter s
           \<and> Matrix_timesPress s'
               = (Matrix_timesPress s)[unat b := Matrix_timesPress s ! unat b + 1]
           \<and> Matrix_timesRelease s' = Matrix_timesRelease s))
   \<and> (prevState st \<in> {KeyState_Release, KeyState_Off} \<and> \<not> activeCount st > inactiveCount st \<longrightarrow>
        (\<exists>s'. scan_key cfg scanNum detected key s = Inr s'
           \<and> curState (Matrix_scanArray s' ! key) = KeyState_Off
           \<and> lastChangeCounter (Matrix_scanArray s' ! key) = lastChangeCounter st
           \<and> Matrix_timesRelease s' = Matrix_timesRelease s
           \<and> Matrix_timesPress s' = Matrix_timesPress s))"
proof -
  have not_lt: "\<not> diff < Matrix_repeatThreshold s"
    using assms(7) by simp
  note defs = scan_key_def Let_def store_key_def resolve_state_def debug_transition_def emit_def
  show ?thesis
  proof (intro conjI impI)
    assume a: "prevState st \<in> {KeyState_Press, KeyState_Hold} \<and> activeCount st > inactiveCount st"
    show "\<exists>s'. scan_key cfg scanNum detected key s = Inr s'
           \<and> curState (Matrix_scanArray s' ! key) = KeyState_Hold
           \<and> lastChangeCounter (Matrix_scanArray s' ! key) = lastChangeCounter st
           \<and> Matrix_timesRelease s' = Matrix_timesRelease s
           \<and> Matrix_timesPress s' = Matrix_timesPress s"
      using a assms(1,5) not_lt unfolding assms(4,6) by (auto simp: defs)
  next
    assume a: "prevState st \<in> {KeyState_Release, KeyState_Off} \<and> \<not> activeCount st > inactiveCount st"
    show "\<exists>s'. scan_key cfg scanNum detected key s = Inr s'
           \<and> curState (Matrix_scanArray s' ! key) = KeyState_Off
           \<and> lastChangeCounter (Matrix_scanArray s' ! key) = lastChangeCounter st
           \<and> Matrix_timesRelease s' = Matrix_timesRelease s
           \<and> Matrix_timesPress s' = Matrix_timesPress s"
      using a assms(1,5) not_lt unfolding assms(4,6) by (auto simp: defs)
  next
    assume a: "prevState st \<in> {KeyState_Press, KeyState_Hold} \<and> \<not> activeCount st > inactiveCount st
          \<and> diff \<noteq> 0"
    from hist_incr_defined [of diff "Matrix_timesRelease s"] a assms(2)
    obtain b where b: "hist_bucket diff = Some b"
      "int (unat b) = \<lfloor>log 2 (real (unat diff))\<rfloor>"
      "hist_incr (Matrix_timesRelease s) (hist_bucket diff)
         = Inr ((Matrix_timesRelease s)[unat b := Matrix_timesRelease s ! unat b + 1])"
      by blast
    have "\<exists>s'. scan_key cfg scanNum detected key s = Inr s'
           \<and> curState (Matrix_scanArray s' ! key) = KeyState_Release
           \<and> lastChangeCounter (Matrix_scanArray s' ! key) = Matrix_divCounter s
           \<and> Matrix_timesRelease s'
               = (Matrix_timesRelease s)[unat b := Matrix_timesRelease s ! unat b + 1]
           \<and> Matrix_timesPress s' = Matrix_timesPress s"
      using a assms(1,5) not_lt b(3) unfolding assms(4,6) by (auto simp: defs)
    with b(1,2) show "\<exists>s' b. scan_key cfg scanNum detected key s = Inr s'
           \<and> hist_bucket diff = Some b
           \<and> int (unat b) = \<lfloor>log 2 (real (unat diff))\<rfloor>
           \<and> curState (Matrix_scanArray s' ! key) = KeyState_Release
           \<and> lastChangeCounter (Matrix_scanArray s' ! key) = Matrix_divCounter s
           \<and> Matrix_timesRelease s'
               = (Matrix_timesRelease s)[unat b := Matrix_timesRelease s ! unat b + 1]
           \<and> Matrix_timesPress s' = Matrix_timesPress s"
      by blast
  next
    assume a: "prevState st \<in> {KeyState_Release, KeyState_Off} \<and> activeCount st > inactiveCount st
          \<and> diff \<noteq> 0"
    from hist_incr_defined [of diff "Matrix_timesPress s"] a assms(3)
    obtain b where b: "hist_bucket diff = Some b"
      "int (unat b) = \<lfloor>log 2 (real (unat diff))\<rfloor>"
      "hist_incr (Matrix_timesPress s) (hist_bucket diff)
         = Inr ((Matrix_timesPress s)[unat b := Matrix_timesPress s ! unat b + 1])"
      by blast
    have "\<exists>s'. scan_key cfg scanNum detected key s = Inr s'
           \<and> curState (Matrix_scanArray s' ! key) = KeyState_Press
           \<and> lastChangeCounter (Matrix_scanArray s' ! key) = Matrix_divCounter s
           \<and> Matrix_timesPress s'
               = (Matrix_timesPress s)[unat b := Matrix_timesPress s ! unat b + 1]
           \<and> Matrix_timesRelease s' = Matrix_timesRelease s"
      using a assms(1,5) not_lt b(3) unfolding assms(4,6) by (auto simp: defs)
    with b(1,2) show "\<exists>s' b. scan_key cfg scanNum detected key s = Inr s'
           \<and> hist_bucket diff = Some b
           \<and> int (unat b) = \<lfloor>log 2 (real (unat diff))\<rfloor>
           \<and> curState (Matrix_scanArray s' ! key) = KeyState_Press
           \<and> lastChangeCounter (Matrix_scanArray s' ! key) = Matrix_divCounter s
           \<and> Matrix_timesPress s'
               = (Matrix_timesPress s)[unat b := Matrix_timesPress s ! unat b + 1]
           \<and> Matrix_timesRelease s' = Matrix_timesRelease s"
      by blast
  qed
qed

theorem state_resolution_witness:
  "(\<exists>s'. scan_key cfg_1x1 1 True 0 (one_key_state KeyState_Hold 10 0 100) = Inr s'
       \<and> curState (Matrix_scanArray s' ! 0) = KeyState_Hold
       \<and> lastChangeCounter (Matrix_scanArray s' ! 0) = 0)
   \<and> (\<exists>s'. scan_key cfg_1x1 1 False 0 (one_key_state KeyState_Press 0 10 100) = Inr s'
       \<and> curState (Matrix_scanArray s' ! 0) = KeyState_Release
       \<and> lastChangeCounter (Matrix_scanArray s' ! 0) = 100
       \<and> Matrix_timesRelease s' ! 6 = 1)
   \<and> (\<exists>s'. scan_key cfg_1x1 1 True 0 (one_key_state KeyState_Off 10 0 100) = Inr s'
       \<and> curState (Matrix_scanArray s' ! 0) = KeyState_Press
       \<and> lastChangeCounter (Matrix_scanArray s' ! 0) = 100
       \<and> Matrix_timesPress s' ! 6 = 1)
   \<and> (\<exists>s'. scan_key cfg_1x1 1 False 0 (one_key_state KeyState_Release 0 10 100) = Inr s'
       \<and> curState (Matrix_scanArray s' ! 0) = KeyState_Off
       \<and> lastChangeCounter (Matrix_scanArray s' ! 0) = 0)"
proof -
  have "hist_bucket 100 = Some 6" by code_simp
  then have b6: "hist_bucket 100 = Some b \<Longrightarrow> unat b = 6" for b
    by auto
  have hold: "\<exists>s'. scan_key cfg_1x1 1 True 0 (one_key_state KeyState_Hold 10 0 100) = Inr s'
       \<and> curState (Matrix_scanArray s' ! 0) = KeyState_Hold
       \<and> lastChangeCounter (Matrix_scanArray s' ! 0) = 0"
    using state_resolution [of 0 "one_key_state KeyState_Hold 10 0 100" _ cfg_1x1 True 1,
        OF _ _ _ refl _ refl]
    by (simp add: one_key_defs) blast
  have release: "\<exists>s'. scan_key cfg_1x1 1 False 0 (one_key_state KeyState_Press 0 10 100) = Inr s'
       \<and> curState (Matrix_scanArray s' ! 0) = KeyState_Release
       \<and> lastChangeCounter (Matrix_scanArray s' ! 0) = 100
       \<and> Matrix_timesRelease s' ! 6 = 1"
    using state_resolution [of 0 "one_key_state KeyState_Press 0 10 100" _ cfg_1x1 False 1,
        OF _ _ _ refl _ refl] b6
    by (simp add: one_key_defs) fastforce
  have press: "\<exists>s'. scan_key cfg_1x1 1 True 0 (one_key_state KeyState_Off 10 0 100) = Inr s'
       \<and> curState (Matrix_scanArray s' ! 0) = KeyState_Press
       \<and> lastChangeCounter (Matrix_scanArray s' ! 0) = 100
       \<and> Matrix_timesPress s' ! 6 = 1"
    using state_resolution [of 0 "one_key_state KeyState_Off 10 0 100" _ cfg_1x1 True 1,
        OF _ _ _ refl _ refl] b6
    by (simp add: one_key_defs) fastforce
  have off: "\<exists>s'. scan_key cfg_1x1 1 False 0 (one_key_state KeyState_Release 0 10 100) = Inr s'
       \<and> curState (Matrix_scanArray s' ! 0) = KeyState_Off
       \<and> lastChangeCounter (Matrix_scanArray s' ! 0) = 0"
    using state_resolution [of 0 "one_key_state KeyState_Release 0 10 100" _ cfg_1x1 False 1,
        OF _ _ _ refl _ refl]
    by (simp add: one_key_defs) blast
  from hold release press off show ?thesis by blast
qed

text \<open>
  Claim C4, as the code has it. When a cell reaches the state resolution with
  \<open>prevState = KeyState_Invalid\<close>, the error message is printed and the scan goes on, but
  the cell keeps \<open>curState = KeyState_Invalid\<close> (nothing assigns a fallback), and that state is
  what \<open>Macro_keyState\<close> is called with.
\<close>

theorem invalid_prev_reported:
  fixes cfg :: "('w::len) word config"
  assumes "key < length (Matrix_scanArray s)"
    and "st = debounce_count (DebounceDivThreshold_define cfg) detected
               (reset_state scanNum (Matrix_scanArray s ! key))"
    and "curState st = KeyState_Invalid"
    and "Matrix_repeatThreshold s \<le> Matrix_divCounter s - lastChangeCounter st"
    and "prevState st = KeyState_Invalid"
  shows "\<exists>s'. scan_key cfg scanNum detected key s = Inr s'
           \<and> trace s' = trace s @ [Erro_print ''Matrix scan bug!! Report me!'',
                                    Macro_keyState key KeyState_Invalid]
           \<and> curState (Matrix_scanArray s' ! key) = KeyState_Invalid
           \<and> Matrix_timesRelease s' = Matrix_timesRelease s
           \<and> Matrix_timesPress s' = Matrix_timesPress s"
proof -
  have "\<not> Matrix_divCounter s - lastChangeCounter st < Matrix_repeatThreshold s"
    using assms(4) by simp
  then show ?thesis
    using assms(1,3,5) unfolding assms(2)
    by (simp add: scan_key_def Let_def store_key_def resolve_state_def debug_transition_def
        emit_def)
qed

theorem invalid_prev_reported_witness:
  "0 < length (Matrix_scanArray unresolved_state)
   \<and> curState (debounce_count (DebounceDivThreshold_define cfg_1x1) False
        (reset_state 1 (Matrix_scanArray unresolved_state ! 0))) = KeyState_Invalid
   \<and> Matrix_repeatThreshold unresolved_state
        \<le> Matrix_divCounter unresolved_state
           - lastChangeCounter (debounce_count (DebounceDivThreshold_define cfg_1x1) False
               (reset_state 1 (Matrix_scanArray unresolved_state ! 0)))
   \<and> prevState (debounce_count (DebounceDivThreshold_define cfg_1x1) False
        (reset_state 1 (Matrix_scanArray unresolved_state ! 0))) = KeyState_Invalid
   \<and> (\<exists>s'. scan_key cfg_1x1 1 False 0 unresolved_state = Inr s'
           \<and> trace s' = trace unresolved_state @ [Erro_print ''Matrix scan bug!! Report me!'',
                                    Macro_keyState 0 KeyState_Invalid]
           \<and> curState (Matrix_scanArray s' ! 0) = KeyState_Invalid
           \<and> Matrix_timesRelease s' = Matrix_timesRelease unresolved_state
           \<and> Matrix_timesPress s' = Matrix_timesPress unresolved_state)"
proof -
  let ?st = "debounce_count (DebounceDivThreshold_define cfg_1x1) False
        (reset_state 1 (Matrix_scanArray unresolved_state ! 0))"
  have h1: "0 < length (Matrix_scanArray unresolved_state)"
    by (simp add: unresolved_state_def)
  have h3: "curState ?st = KeyState_Invalid"
    by (simp add: unresolved_state_def reset_state_def)
  have h4: "Matrix_repeatThreshold unresolved_state
        \<le> Matrix_divCounter unresolved_state - lastChangeCounter ?st"
    by (simp add: unresolved_state_def boot_state_def)
  have h5: "prevState ?st = KeyState_Invalid"
    by (simp add: unresolved_state_def reset_state_def)
  from invalid_prev_reported [OF h1 refl h3 h4 h5] h1 h3 h4 h5 show ?thesis by blast
qed

text \<open>
  Claim C4 as stated says that the cell's state is set to \<open>Off\<close>. In the state
  \<open>unresolved_state\<close> the cell is still \<open>KeyState_Invalid\<close> after the scan of the key.
\<close>

theorem invalid_prev_counterexample:
  "curState_after (scan_key cfg_1x1 1 False 0 unresolved_state) 0 = Some KeyState_Invalid
   \<and> curState_after (scan_key cfg_1x1 1 False 0 unresolved_state) 0 \<noteq> Some KeyState_Off"
  by (simp add: curState_after_def scan_key_def Let_def store_key_def resolve_state_def
      debug_transition_def emit_def cfg_1x1_def unresolved_state_def boot_state_def
      reset_state_def debounce_count_def)

text \<open>
  Claim C5. When the cell's \<open>curState\<close> is \<open>KeyState_Invalid\<close> and the ticks since its last
  change are fewer than \<open>Matrix_repeatThreshold\<close>, the scan of the key sets \<open>curState\<close> to
  \<open>prevState\<close>, changes no histogram, keeps \<open>lastChangeCounter\<close>, and adds nothing to the
  trace (no call of \<open>Macro_keyState\<close>).
\<close>

theorem repeat_suppression:
  fixes cfg :: "('w::len) word config"
  assumes "key < length (Matrix_scanArray s)"
    and "st = debounce_count (DebounceDivThreshold_define cfg) detected
               (reset_state scanNum (Matrix_scanArray s ! key))"
    and "curState st = KeyState_Invalid"
    and "Matrix_divCounter s - lastChangeCounter st < Matrix_repeatThreshold s"
  shows "\<exists>s'. scan_key cfg scanNum detected key s = Inr s'
           \<and> curState (Matrix_scanArray s' ! key) = prevState st
           \<and> prevState (Matrix_scanArray s' ! key) = prevState st
           \<and> lastChangeCounter (Matrix_scanArray s' ! key)
               = lastChangeCounter (Matrix_scanArray s ! key)
           \<and> Matrix_timesRelease s' = Matrix_timesRelease s
           \<and> Matrix_timesPress s' = Matrix_timesPress s
           \<and> trace s' = trace s"
  using assms by (simp add: scan_key_def Let_def store_key_def)

theorem repeat_suppression_witness:
  "\<exists>s'. scan_key cfg_1x1 1 True 0 (one_key_state KeyState_Press 7 0 5) = Inr s'
      \<and> curState (Matrix_scanArray s' ! 0) = KeyState_Press
      \<and> prevState (Matrix_scanArray s' ! 0) = KeyState_Press
      \<and> lastChangeCounter (Matrix_scanArray s' ! 0) = 0
      \<and> Matrix_timesRelease s' = Matrix_timesRelease (one_key_state KeyState_Press 7 0 5)
      \<and> Matrix_timesPress s' = Matrix_timesPress (one_key_state KeyState_Press 7 0 5)
      \<and> trace s' = []"
proof -
  let ?s = "one_key_state KeyState_Press 7 0 5"
  let ?st = "debounce_count (DebounceDivThreshold_define cfg_1x1) True
               (reset_state 1 (Matrix_scanArray ?s ! 0))"
  have h1: "0 < length (Matrix_scanArray ?s)" by (simp add: one_key_defs)
  have h3: "curState ?st = KeyState_Invalid" by (simp add: one_key_defs)
  have h4: "Matrix_divCounter ?s - lastChangeCounter ?st < Matrix_repeatThreshold ?s"
    by (simp add: one_key_defs)
  have e: "prevState ?st = KeyState_Press" "lastChangeCounter (Matrix_scanArray ?s ! 0) = 0"
    "trace ?s = []"
    by (simp_all add: one_key_defs)
  from repeat_suppression [OF h1 refl h3 h4] show ?thesis
    unfolding e .
qed

section \<open>What a scan leaves unchanged, and that it returns\<close>

lemma globals_kept_refl [simp]: "globals_kept s s"
  by (simp add: globals_kept_def)

lemma globals_kept_trans: "globals_kept s s' \<Longrightarrow> globals_kept s' s'' \<Longrightarrow> globals_kept s s''"
  by (simp add: globals_kept_def)

lemma globals_kept_emit [simp]: "globals_kept s (emit evs s)" "globals_kept (emit evs s) s"
  by (simp_all add: globals_kept_def emit_def)

lemma hist_incr_length: "hist_incr h b = Inr h' \<Longrightarrow> length h' = length h"
  by (auto simp: hist_incr_def split: option.splits if_splits)

lemma resolve_state_kept:
  "resolve_state st b s = Inr (st', s') \<Longrightarrow> globals_kept s s'"
  by (auto simp: resolve_state_def globals_kept_def emit_def dest: hist_incr_length
      split: if_splits sum.splits)

lemma debug_transition_kept [simp]: "globals_kept s (debug_transition key st s)"
  by (simp add: debug_transition_def globals_kept_def emit_def)

lemma store_key_kept [simp]: "globals_kept s (store_key key st s)"
  by (simp add: store_key_def globals_kept_def)

lemma scan_key_kept:
  assumes "scan_key cfg scanNum detected key s = Inr s'"
  shows "globals_kept s s'"
proof -
  let ?st = "debounce_count (DebounceDivThreshold_define cfg) detected
               (reset_state scanNum (Matrix_scanArray s ! key))"
  consider (stored) "s' = store_key key ?st s"
    | (suppressed) "s' = store_key key (?st\<lparr>curState := prevState ?st\<rparr>) s"
    | (resolved) st' s1 where
        "resolve_state ?st (hist_bucket (Matrix_divCounter s - lastChangeCounter ?st)) s
           = Inr (st', s1)"
        "s' = debug_transition key st' (emit [Macro_keyState key (curState st')]
                (store_key key st' s1))"
    using assms by (auto simp: scan_key_def Let_def split: if_splits sum.splits)
  then show ?thesis
  proof cases
    case stored
    then show ?thesis by simp
  next
    case suppressed
    then show ?thesis by simp
  next
    case resolved
    from resolve_state_kept [OF resolved(1)] have "globals_kept s s1" .
    moreover have "globals_kept s1 s'"
      unfolding resolved(2)
      by (simp add: debug_transition_def globals_kept_def emit_def store_key_def)
    ultimately show ?thesis by (rule globals_kept_trans)
  qed
qed

lemma sense_loop_kept:
  "sense_loop cfg rd scanNum strobe senses s = Inr s' \<Longrightarrow> globals_kept s s'"
proof (induction senses arbitrary: s)
  case Nil
  then show ?case by simp
next
  case (Cons sense senses)
  then obtain s1 where
    s1: "scan_key cfg scanNum (rd strobe sense) (key_index cfg strobe sense) s = Inr s1"
    and rest: "sense_loop cfg rd scanNum strobe senses s1 = Inr s'"
    by (auto split: sum.splits)
  from scan_key_kept [OF s1] Cons.IH [OF rest] show ?case
    by (rule globals_kept_trans)
qed

lemma strobe_loop_kept:
  "strobe_loop cfg rd scanNum strobes s = Inr s' \<Longrightarrow> globals_kept s s'"
proof (induction strobes arbitrary: s)
  case Nil
  then show ?case by simp
next
  case (Cons strobe strobes)
  then obtain s1 where
    s1: "sense_loop cfg rd scanNum strobe [0..<Matrix_rowsNum cfg]
           (emit [Matrix_pin Type_StrobeOn strobe] s) = Inr s1"
    and rest: "strobe_loop cfg rd scanNum strobes (emit [Matrix_pin Type_StrobeOff strobe] s1)
           = Inr s'"
    by (auto split: sum.splits if_splits)
  have "globals_kept s s1"
    using sense_loop_kept [OF s1] by (simp add: globals_kept_def emit_def)
  moreover have "globals_kept s1 s'"
    using Cons.IH [OF rest] by (simp add: globals_kept_def emit_def)
  ultimately show ?case by (rule globals_kept_trans)
qed

lemma state_table_debug_kept:
  assumes "state_table_debug cfg n s = Inr s'"
  shows "matrixMaxScans s' = matrixMaxScans s"
    and "matrixCurScans s' = matrixCurScans s"
    and "matrixPrevScans s' = matrixPrevScans s"
    and "Matrix_divCounter s' = Matrix_divCounter s"
    and "Matrix_repeatThreshold s' = Matrix_repeatThreshold s"
    and "Matrix_scanArray s' = Matrix_scanArray s"
    and "Matrix_timesRelease s' = Matrix_timesRelease s"
    and "Matrix_timesPress s' = Matrix_timesPress s"
  using assms by (auto simp: state_table_debug_def emit_def split: if_splits)

lemma scan_stats_kept:
  "Matrix_divCounter (scan_stats n s) = Matrix_divCounter s"
  "Matrix_repeatThreshold (scan_stats n s) = Matrix_repeatThreshold s"
  "Matrix_scanArray (scan_stats n s) = Matrix_scanArray s"
  "Matrix_timesRelease (scan_stats n s) = Matrix_timesRelease s"
  "Matrix_timesPress (scan_stats n s) = Matrix_timesPress s"
  "trace (scan_stats n s) = trace s"
  by (simp_all add: scan_stats_def Let_def)

lemma Matrix_scan_cases:
  assumes "Matrix_scan cfg rd scanNum s = Inr s'"
  obtains (skipped) "throttled cfg (Matrix_divCounter s + 1)"
      "s' = s\<lparr>Matrix_divCounter := Matrix_divCounter s + 1\<rparr>"
  | (scanned) s2 where "\<not> throttled cfg (Matrix_divCounter s + 1)"
      "strobe_loop cfg rd scanNum [0..<Matrix_colsNum cfg]
         (scan_stats scanNum (s\<lparr>Matrix_divCounter := Matrix_divCounter s + 1\<rparr>)) = Inr s2"
      "state_table_debug cfg scanNum s2 = Inr s'"
  using assms by (auto simp: Matrix_scan_def Let_def split: if_splits sum.splits)

lemma Matrix_scan_stats:
  assumes "\<not> throttled cfg (Matrix_divCounter s + 1)"
    and "Matrix_scan cfg rd scanNum s = Inr s'"
  shows "matrixMaxScans s' = (if scanNum > matrixMaxScans s then scanNum else matrixMaxScans s)"
    and "matrixPrevScans s' = (if scanNum = 0 then matrixCurScans s else matrixPrevScans s)"
    and "matrixCurScans s' = (if scanNum = 0 then 0 else matrixCurScans s + 1)"
proof -
  from assms(2) assms(1) obtain s2 where
    loop: "strobe_loop cfg rd scanNum [0..<Matrix_colsNum cfg]
         (scan_stats scanNum (s\<lparr>Matrix_divCounter := Matrix_divCounter s + 1\<rparr>)) = Inr s2"
    and s': "state_table_debug cfg scanNum s2 = Inr s'"
    by (cases rule: Matrix_scan_cases) auto
  note kept = state_table_debug_kept [OF s']
  from strobe_loop_kept [OF loop] have
    k: "globals_kept (scan_stats scanNum (s\<lparr>Matrix_divCounter := Matrix_divCounter s + 1\<rparr>)) s2" .
  show "matrixMaxScans s' = (if scanNum > matrixMaxScans s then scanNum else matrixMaxScans s)"
    using k by (simp add: kept globals_kept_def scan_stats_def Let_def)
  show "matrixPrevScans s' = (if scanNum = 0 then matrixCurScans s else matrixPrevScans s)"
    using k by (simp add: kept globals_kept_def scan_stats_def Let_def)
  show "matrixCurScans s' = (if scanNum = 0 then 0 else matrixCurScans s + 1)"
    using k by (simp add: kept globals_kept_def scan_stats_def Let_def)
qed

lemma Matrix_scan_globals:
  assumes "Matrix_scan cfg rd scanNum s = Inr s'"
  shows "Matrix_divCounter s' = Matrix_divCounter s + 1
    \<and> Matrix_repeatThreshold s' = Matrix_repeatThreshold s
    \<and> length (Matrix_scanArray s') = length (Matrix_scanArray s)
    \<and> length (Matrix_timesRelease s') = length (Matrix_timesRelease s)
    \<and> length (Matrix_timesPress s') = length (Matrix_timesPress s)"
  using assms
proof (cases rule: Matrix_scan_cases)
  case skipped
  then show ?thesis by simp
next
  case (scanned s2)
  note table = state_table_debug_kept [OF scanned(3)]
  from strobe_loop_kept [OF scanned(2)] show ?thesis
    by (simp add: table globals_kept_def scan_stats_kept)
qed

lemma Matrix_scan_divCounter:
  assumes "Matrix_scan cfg rd scanNum s = Inr s'"
  shows "Matrix_divCounter s' = Matrix_divCounter s + 1"
    and "Matrix_repeatThreshold s' = Matrix_repeatThreshold s"
    and "length (Matrix_scanArray s') = length (Matrix_scanArray s)"
    and "length (Matrix_timesRelease s') = length (Matrix_timesRelease s)"
    and "length (Matrix_timesPress s') = length (Matrix_timesPress s)"
  using Matrix_scan_globals [OF assms] by simp_all

lemma arrays_ok_kept: "globals_kept s s' \<Longrightarrow> arrays_ok cfg s \<Longrightarrow> arrays_ok cfg s'"
  by (simp add: globals_kept_def arrays_ok_def)

lemma arrays_ok_emit [simp]: "arrays_ok cfg (emit evs s) = arrays_ok cfg s"
  by (simp add: arrays_ok_def emit_def)

lemma key_index_less:
  assumes "strobe < Matrix_colsNum cfg" and "sense < Matrix_rowsNum cfg"
  shows "key_index cfg strobe sense < Matrix_maxKeys cfg"
proof -
  have "Matrix_colsNum cfg * sense + strobe < Matrix_colsNum cfg * Suc sense"
    using assms(1) by simp
  also have "\<dots> \<le> Matrix_colsNum cfg * Matrix_rowsNum cfg"
    using assms(2) by (intro mult_le_mono2) simp
  finally have "Matrix_colsNum cfg * sense + strobe < Matrix_maxKeys cfg"
    by (simp add: Matrix_maxKeys_def)
  moreover have "key_index cfg strobe sense \<le> Matrix_colsNum cfg * sense + strobe"
    by (simp add: key_index_def)
  ultimately show ?thesis by simp
qed

lemma resolve_state_returns:
  assumes "diff \<noteq> 0"
    and "length (Matrix_timesRelease s) = 32" and "length (Matrix_timesPress s) = 32"
  shows "\<exists>st' s'. resolve_state st (hist_bucket diff) s = Inr (st', s')"
proof -
  from hist_incr_defined [OF assms(1,2)] obtain hr where
    hr: "hist_incr (Matrix_timesRelease s) (hist_bucket diff) = Inr hr" by blast
  from hist_incr_defined [OF assms(1,3)] obtain hp where
    hp: "hist_incr (Matrix_timesPress s) (hist_bucket diff) = Inr hp" by blast
  show ?thesis by (simp add: resolve_state_def hr hp)
qed

lemma scan_key_returns:
  assumes "key < length (Matrix_scanArray s)"
    and "length (Matrix_timesRelease s) = 32" and "length (Matrix_timesPress s) = 32"
    and "Matrix_repeatThreshold s \<noteq> 0"
  shows "\<exists>s'. scan_key cfg scanNum detected key s = Inr s'"
proof -
  let ?st = "debounce_count (DebounceDivThreshold_define cfg) detected
               (reset_state scanNum (Matrix_scanArray s ! key))"
  let ?diff = "Matrix_divCounter s - lastChangeCounter ?st"
  show ?thesis
  proof (cases "curState ?st = KeyState_Invalid \<and> \<not> ?diff < Matrix_repeatThreshold s")
    case True
    with assms(4) have "?diff \<noteq> 0"
      by (metis word_gt_0 not_less_iff_gr_or_eq)
    from resolve_state_returns [OF this assms(2,3)] obtain st' s1 where
      "resolve_state ?st (hist_bucket ?diff) s = Inr (st', s1)" by blast
    with True assms(1) show ?thesis
      by (simp add: scan_key_def Let_def)
  next
    case False
    with assms(1) show ?thesis
      by (auto simp: scan_key_def Let_def)
  qed
qed

lemma sense_loop_returns:
  assumes "arrays_ok cfg s" and "Matrix_repeatThreshold s \<noteq> 0"
    and "strobe < Matrix_colsNum cfg" and "\<forall>sense \<in> set senses. sense < Matrix_rowsNum cfg"
  shows "\<exists>s'. sense_loop cfg rd scanNum strobe senses s = Inr s'"
  using assms
proof (induction senses arbitrary: s)
  case Nil
  then show ?case by simp
next
  case (Cons sense senses)
  have "key_index cfg strobe sense < length (Matrix_scanArray s)"
    using key_index_less [of strobe cfg sense] Cons.prems by (simp add: arrays_ok_def)
  from scan_key_returns [OF this, of cfg scanNum "rd strobe sense"] Cons.prems(1,2)
  obtain s1 where
    s1: "scan_key cfg scanNum (rd strobe sense) (key_index cfg strobe sense) s = Inr s1"
    by (auto simp: arrays_ok_def)
  from scan_key_kept [OF s1] Cons.prems have "arrays_ok cfg s1" "Matrix_repeatThreshold s1 \<noteq> 0"
    by (auto simp: arrays_ok_def globals_kept_def)
  from Cons.IH [OF this] Cons.prems s1 show ?case by simp
qed

lemma strobe_loop_returns:
  assumes "arrays_ok cfg s" and "Matrix_repeatThreshold s \<noteq> 0"
    and "\<forall>strobe \<in> set strobes. strobe < Matrix_colsNum cfg"
    and "Matrix_rowsNum cfg \<le> 255"
  shows "\<exists>s'. strobe_loop cfg rd scanNum strobes s = Inr s'"
  using assms
proof (induction strobes arbitrary: s)
  case Nil
  then show ?case by simp
next
  case (Cons strobe strobes)
  let ?s0 = "emit [Matrix_pin Type_StrobeOn strobe] s"
  have "arrays_ok cfg ?s0" "Matrix_repeatThreshold ?s0 \<noteq> 0"
    using Cons.prems by (simp_all add: arrays_ok_def emit_def)
  from sense_loop_returns [OF this, of strobe "[0..<Matrix_rowsNum cfg]" rd scanNum] Cons.prems
  obtain s1 where
    s1: "sense_loop cfg rd scanNum strobe [0..<Matrix_rowsNum cfg] ?s0 = Inr s1"
    by auto
  let ?s2 = "emit [Matrix_pin Type_StrobeOff strobe] s1"
  from sense_loop_kept [OF s1] Cons.prems have "arrays_ok cfg ?s2" "Matrix_repeatThreshold ?s2 \<noteq> 0"
    by (auto simp: arrays_ok_def globals_kept_def emit_def)
  from Cons.IH [OF this] Cons.prems s1 show ?case by simp
qed

lemma state_table_debug_returns:
  "Matrix_maxKeys cfg \<le> 255 \<Longrightarrow> \<exists>s'. state_table_debug cfg scanNum s = Inr s'"
  by (simp add: state_table_debug_def)

lemma Matrix_scan_returns:
  assumes "config_ok cfg" and "arrays_ok cfg s" and "Matrix_repeatThreshold s \<noteq> 0"
  shows "\<exists>s'. Matrix_scan cfg rd scanNum s = Inr s'"
proof -
  from assms(1) have cols: "Matrix_colsNum cfg \<le> 255" and rows: "Matrix_rowsNum cfg \<le> 255"
    and keys: "Matrix_maxKeys cfg \<le> 255"
    by (simp_all add: config_ok_def)
  let ?s1 = "scan_stats scanNum (s\<lparr>Matrix_divCounter := Matrix_divCounter s + 1\<rparr>)"
  have "arrays_ok cfg ?s1" "Matrix_repeatThreshold ?s1 \<noteq> 0"
    using assms(2,3) by (simp_all add: arrays_ok_def scan_stats_kept)
  from strobe_loop_returns [OF this _ rows, of "[0..<Matrix_colsNum cfg]" rd scanNum]
  obtain s2 where s2: "strobe_loop cfg rd scanNum [0..<Matrix_colsNum cfg] ?s1 = Inr s2"
    by auto
  from state_table_debug_returns [OF keys, of scanNum s2] obtain s' where
    "state_table_debug cfg scanNum s2 = Inr s'" by blast
  with s2 cols show ?thesis by (simp add: Matrix_scan_def Let_def)
qed

lemma throttled_div_1:
  "DebounceThrottleDiv_define cfg = 1 \<Longrightarrow> throttled cfg counter \<longleftrightarrow> even counter"
  by (simp add: throttled_def and_one_eq even_iff_mod_2_eq_zero)

text \<open>
  Claim C9, as the code has it. A call of \<open>Matrix_scan\<close> with \<open>scanNum = 0\<close> that the
  throttle does not skip copies \<open>matrixCurScans\<close> to \<open>matrixPrevScans\<close> and sets
  \<open>matrixCurScans\<close> to 0. It does not reset \<open>matrixMaxScans\<close>, which keeps its value.
\<close>

theorem scan_stats_at_zero:
  assumes "\<not> throttled cfg (Matrix_divCounter s + 1)"
    and "Matrix_scan cfg rd 0 s = Inr s'"
  shows "matrixPrevScans s' = matrixCurScans s \<and> matrixCurScans s' = 0
         \<and> matrixMaxScans s' = matrixMaxScans s"
  using Matrix_scan_stats [OF assms] by simp

theorem scan_stats_at_zero_witness:
  "\<not> throttled cfg_1x1 (Matrix_divCounter stats_state + 1)
   \<and> (\<exists>s'. Matrix_scan cfg_1x1 all_open 0 stats_state = Inr s'
         \<and> matrixPrevScans s' = 2 \<and> matrixCurScans s' = 0 \<and> matrixMaxScans s' = 2)"
proof -
  have nt: "\<not> throttled cfg_1x1 (Matrix_divCounter stats_state + 1)"
    by (simp add: throttled_def cfg_1x1_def)
  have "arrays_ok cfg_1x1 stats_state" "Matrix_repeatThreshold stats_state \<noteq> 0"
    by (simp_all add: stats_state_def arrays_ok_def setup_globals_def boot_state_def)
  from Matrix_scan_returns [OF cfg_1x1_ok(1) this] obtain s' where
    run: "Matrix_scan cfg_1x1 all_open 0 stats_state = Inr s'" by blast
  have v: "matrixCurScans stats_state = 2" "matrixMaxScans stats_state = 2"
    by (simp_all add: stats_state_def)
  from scan_stats_at_zero [OF nt run] nt run show ?thesis
    unfolding v by blast
qed

text \<open>
  Claim C9 as stated says that \<open>matrixMaxScans\<close> is reset as well. After a call with
  \<open>scanNum = 0\<close> in a state where it is 2, it is still 2.
\<close>

theorem scan_stats_max_counterexample:
  "result_of matrixMaxScans (Matrix_scan cfg_1x1 all_open 0 stats_state) = Some 2
   \<and> result_of matrixMaxScans (Matrix_scan cfg_1x1 all_open 0 stats_state) \<noteq> Some 0"
  by code_simp

text \<open>
  Claim C7. Every call of \<open>Matrix_scan\<close> that returns has incremented
  \<open>Matrix_divCounter\<close>, and a call returns whenever its loops end (\<open>config_ok\<close>), the
  arrays have their declared sizes and the repeat threshold is not 0. With the throttle
  divider set to 1, a call made when the counter is odd (so that the incremented counter
  has bit 0 clear) returns the state with only the counter changed: no cell, no statistic
  and no trace event. Of two calls in a row exactly one is skipped.
\<close>

theorem scan_throttle:
  "(\<forall>s'. Matrix_scan cfg rd scanNum s = Inr s'
       \<longrightarrow> Matrix_divCounter s' = Matrix_divCounter s + 1)
   \<and> (config_ok cfg \<and> arrays_ok cfg s \<and> Matrix_repeatThreshold s \<noteq> 0
       \<longrightarrow> (\<exists>s'. Matrix_scan cfg rd scanNum s = Inr s'))
   \<and> (DebounceThrottleDiv_define cfg = 1 \<and> odd (Matrix_divCounter s)
       \<longrightarrow> Matrix_scan cfg rd scanNum s = Inr (s\<lparr>Matrix_divCounter := Matrix_divCounter s + 1\<rparr>))
   \<and> (DebounceThrottleDiv_define cfg = 1
       \<longrightarrow> (\<forall>s'. Matrix_scan cfg rd scanNum s = Inr s'
             \<longrightarrow> (throttled cfg (Matrix_divCounter s' + 1)
                  \<longleftrightarrow> \<not> throttled cfg (Matrix_divCounter s + 1))))"
proof (intro conjI allI impI)
  fix s' assume "Matrix_scan cfg rd scanNum s = Inr s'"
  then show "Matrix_divCounter s' = Matrix_divCounter s + 1"
    by (rule Matrix_scan_divCounter)
next
  assume "config_ok cfg \<and> arrays_ok cfg s \<and> Matrix_repeatThreshold s \<noteq> 0"
  then show "\<exists>s'. Matrix_scan cfg rd scanNum s = Inr s'"
    using Matrix_scan_returns [of cfg s rd scanNum] by simp
next
  assume "DebounceThrottleDiv_define cfg = 1 \<and> odd (Matrix_divCounter s)"
  then have "throttled cfg (Matrix_divCounter s + 1)"
    by (simp add: throttled_div_1)
  then show "Matrix_scan cfg rd scanNum s = Inr (s\<lparr>Matrix_divCounter := Matrix_divCounter s + 1\<rparr>)"
    by (simp add: Matrix_scan_def Let_def)
next
  fix s' assume d: "DebounceThrottleDiv_define cfg = 1"
    and "Matrix_scan cfg rd scanNum s = Inr s'"
  then have "Matrix_divCounter s' = Matrix_divCounter s + 1"
    by (simp add: Matrix_scan_divCounter)
  then show "throttled cfg (Matrix_divCounter s' + 1) \<longleftrightarrow> \<not> throttled cfg (Matrix_divCounter s + 1)"
    using d by (simp add: throttled_div_1)
qed

theorem scan_throttle_witness:
  "config_ok cfg_throttled
   \<and> arrays_ok cfg_throttled throttle_state
   \<and> Matrix_repeatThreshold throttle_state \<noteq> 0
   \<and> DebounceThrottleDiv_define cfg_throttled = 1
   \<and> odd (Matrix_divCounter throttle_state)
   \<and> Matrix_scan cfg_throttled all_closed 0 throttle_state
       = Inr (throttle_state\<lparr>Matrix_divCounter := Matrix_divCounter throttle_state + 1\<rparr>)
   \<and> Matrix_divCounter throttle_state + 1 = 2
   \<and> \<not> throttled cfg_throttled (2 + 1)"
proof -
  have cfg: "config_ok cfg_throttled"
    by (simp add: config_ok_def Matrix_maxKeys_def cfg_throttled_def cfg_1x1_def)
  have ok: "arrays_ok cfg_throttled throttle_state"
    by (simp add: throttle_state_def arrays_ok_def setup_globals_def)
  have rt: "Matrix_repeatThreshold throttle_state \<noteq> 0"
    by (simp add: throttle_state_def setup_globals_def boot_state_def)
  have d: "DebounceThrottleDiv_define cfg_throttled = 1"
    by (simp add: cfg_throttled_def)
  have c: "Matrix_divCounter throttle_state = 1"
    by (simp add: throttle_state_def)
  have o: "odd (Matrix_divCounter throttle_state)"
    by (simp add: c)
  let ?s' = "throttle_state\<lparr>Matrix_divCounter := Matrix_divCounter throttle_state + 1\<rparr>"
  note inst = scan_throttle [where cfg = cfg_throttled and rd = all_closed and scanNum = 0
      and s = throttle_state]
  from inst d o have run: "Matrix_scan cfg_throttled all_closed 0 throttle_state = Inr ?s'"
    by blast
  from inst run have n: "Matrix_divCounter ?s' = Matrix_divCounter throttle_state + 1"
    by blast
  from inst d run have "throttled cfg_throttled (Matrix_divCounter ?s' + 1)
      \<longleftrightarrow> \<not> throttled cfg_throttled (Matrix_divCounter throttle_state + 1)"
    by blast
  moreover have "throttled cfg_throttled (Matrix_divCounter throttle_state + 1)"
    by (simp add: c throttled_def d)
  ultimately have "\<not> throttled cfg_throttled (2 + 1)"
    by (simp add: c)
  moreover from inst cfg ok rt have "\<exists>s'. Matrix_scan cfg_throttled all_closed 0 throttle_state = Inr s'"
    by blast
  ultimately show ?thesis using cfg ok rt d o run c by simp
qed

section \<open>Invariants of the scan\<close>

lemma keyState_calls_append [simp]:
  "keyState_calls (xs @ ys) = keyState_calls xs @ keyState_calls ys"
  by (induction xs rule: keyState_calls.induct) simp_all

lemma calls_for_append [simp]: "calls_for k (xs @ ys) = calls_for k xs + calls_for k ys"
  by (simp add: calls_for_def)

lemma calls_for_Nil [simp]: "calls_for k [] = 0"
  by (simp add: calls_for_def)

lemma keyState_calls_debug [simp]:
  "keyState_calls (Matrix_keyPositionDebug p # evs) = keyState_calls evs"
  by (cases p) simp_all

text \<open>The ways through the switch.\<close>

lemma resolve_state_cases:
  assumes "resolve_state st b s = Inr (st', s')"
  obtains
    (hold) "prevState st = KeyState_Press \<or> prevState st = KeyState_Hold"
      "inactiveCount st < activeCount st"
      "st' = st\<lparr>curState := KeyState_Hold\<rparr>" "s' = s"
  | (release) h where "prevState st = KeyState_Press \<or> prevState st = KeyState_Hold"
      "\<not> inactiveCount st < activeCount st"
      "hist_incr (Matrix_timesRelease s) b = Inr h"
      "st' = st\<lparr>curState := KeyState_Release, lastChangeCounter := Matrix_divCounter s\<rparr>"
      "s' = s\<lparr>Matrix_timesRelease := h\<rparr>"
  | (press) h where "prevState st = KeyState_Release \<or> prevState st = KeyState_Off"
      "inactiveCount st < activeCount st"
      "hist_incr (Matrix_timesPress s) b = Inr h"
      "st' = st\<lparr>curState := KeyState_Press, lastChangeCounter := Matrix_divCounter s\<rparr>"
      "s' = s\<lparr>Matrix_timesPress := h\<rparr>"
  | (off) "prevState st = KeyState_Release \<or> prevState st = KeyState_Off"
      "\<not> inactiveCount st < activeCount st"
      "st' = st\<lparr>curState := KeyState_Off\<rparr>" "s' = s"
  | (invalid) "prevState st = KeyState_Invalid"
      "st' = st" "s' = emit [Erro_print ''Matrix scan bug!! Report me!''] s"
proof (cases "prevState st")
  case KeyState_Off
  with assms show ?thesis
    by (cases "inactiveCount st < activeCount st")
       (auto simp: resolve_state_def split: sum.splits intro: press off)
next
  case KeyState_Press
  with assms show ?thesis
    by (cases "inactiveCount st < activeCount st")
       (auto simp: resolve_state_def split: sum.splits intro: hold release)
next
  case KeyState_Hold
  with assms show ?thesis
    by (cases "inactiveCount st < activeCount st")
       (auto simp: resolve_state_def split: sum.splits intro: hold release)
next
  case KeyState_Release
  with assms show ?thesis
    by (cases "inactiveCount st < activeCount st")
       (auto simp: resolve_state_def split: sum.splits intro: press off)
next
  case KeyState_Invalid
  with assms show ?thesis
    by (auto simp: resolve_state_def intro: invalid)
qed

text \<open>The ways through the body of the inner loop.\<close>

lemma scan_key_cases:
  assumes "scan_key cfg scanNum detected key s = Inr s'"
    and "st = debounce_count (DebounceDivThreshold_define cfg) detected
               (reset_state scanNum (Matrix_scanArray s ! key))"
  obtains
    (stored) "key < length (Matrix_scanArray s)" "curState st \<noteq> KeyState_Invalid"
      "s' = store_key key st s"
  | (suppressed) "key < length (Matrix_scanArray s)" "curState st = KeyState_Invalid"
      "Matrix_divCounter s - lastChangeCounter st < Matrix_repeatThreshold s"
      "s' = store_key key (st\<lparr>curState := prevState st\<rparr>) s"
  | (resolved) st' s1 where "key < length (Matrix_scanArray s)"
      "curState st = KeyState_Invalid"
      "Matrix_repeatThreshold s \<le> Matrix_divCounter s - lastChangeCounter st"
      "resolve_state st (hist_bucket (Matrix_divCounter s - lastChangeCounter st)) s
         = Inr (st', s1)"
      "s' = debug_transition key st' (emit [Macro_keyState key (curState st')]
              (store_key key st' s1))"
  using assms(1) unfolding assms(2)
  by (auto simp: scan_key_def Let_def not_less split: if_splits sum.splits)

lemma debug_transition_effect:
  "Matrix_scanArray (debug_transition key st s) = Matrix_scanArray s"
  "\<exists>evs. trace (debug_transition key st s) = trace s @ evs \<and> keyState_calls evs = []"
  by (simp_all add: debug_transition_def emit_def)

lemma resolve_state_effect:
  assumes "resolve_state st b s = Inr (st', s1)"
  shows "activeCount st' = activeCount st" and "inactiveCount st' = inactiveCount st"
    and "prevState st' = prevState st"
    and "Matrix_scanArray s1 = Matrix_scanArray s"
    and "\<exists>evs. trace s1 = trace s @ evs \<and> keyState_calls evs = []"
    and "prevState st \<noteq> KeyState_Invalid \<Longrightarrow> curState st' \<noteq> KeyState_Invalid"
  using assms by (cases rule: resolve_state_cases; simp add: emit_def)+

lemma scan_key_effect:
  assumes "scan_key cfg scanNum detected key s = Inr s'"
    and "st = debounce_count (DebounceDivThreshold_define cfg) detected
               (reset_state scanNum (Matrix_scanArray s ! key))"
  shows "key < length (Matrix_scanArray s)"
    and "\<exists>st' evs. Matrix_scanArray s' = (Matrix_scanArray s)[key := st']
           \<and> trace s' = trace s @ evs
           \<and> activeCount st' = activeCount st \<and> inactiveCount st' = inactiveCount st
           \<and> (keyState_calls evs = [] \<or> keyState_calls evs = [(key, curState st')])
           \<and> (curState st \<noteq> KeyState_Invalid \<longrightarrow> keyState_calls evs = [])
           \<and> (curState st \<noteq> KeyState_Invalid \<or> prevState st \<noteq> KeyState_Invalid
                \<longrightarrow> curState st' \<noteq> KeyState_Invalid)"
proof -
  show "key < length (Matrix_scanArray s)"
    using assms by (cases rule: scan_key_cases) auto
  from assms show "\<exists>st' evs. Matrix_scanArray s' = (Matrix_scanArray s)[key := st']
           \<and> trace s' = trace s @ evs
           \<and> activeCount st' = activeCount st \<and> inactiveCount st' = inactiveCount st
           \<and> (keyState_calls evs = [] \<or> keyState_calls evs = [(key, curState st')])
           \<and> (curState st \<noteq> KeyState_Invalid \<longrightarrow> keyState_calls evs = [])
           \<and> (curState st \<noteq> KeyState_Invalid \<or> prevState st \<noteq> KeyState_Invalid
                \<longrightarrow> curState st' \<noteq> KeyState_Invalid)"
  proof (cases rule: scan_key_cases)
    case stored
    then show ?thesis
      by (intro exI [of _ st] exI [of _ "[]"]) (simp add: store_key_def)
  next
    case suppressed
    then show ?thesis
      by (intro exI [of _ "st\<lparr>curState := prevState st\<rparr>"] exI [of _ "[]"])
         (simp add: store_key_def)
  next
    case (resolved st' s1)
    note r = resolve_state_effect [OF resolved(4)]
    from r(5) obtain evs1 where evs1: "trace s1 = trace s @ evs1" "keyState_calls evs1 = []"
      by blast
    let ?s2 = "emit [Macro_keyState key (curState st')] (store_key key st' s1)"
    from debug_transition_effect(2) [of key st' ?s2] obtain evs2 where
      evs2: "trace s' = trace ?s2 @ evs2" "keyState_calls evs2 = []"
      unfolding resolved(5) by blast
    have tr: "trace s' = trace s @ (evs1 @ [Macro_keyState key (curState st')] @ evs2)"
      using evs1(1) evs2(1) by (simp add: emit_def store_key_def)
    have arr: "Matrix_scanArray s' = (Matrix_scanArray s)[key := st']"
      unfolding resolved(5) using r(4)
      by (simp add: debug_transition_effect(1) emit_def store_key_def)
    show ?thesis
      using tr arr r(1,2,6) evs1(2) evs2(2) resolved(2)
      by (intro exI [of _ st'] exI [of _ "evs1 @ [Macro_keyState key (curState st')] @ evs2"])
         simp
  qed
qed

lemma drop_bit_word_le: "drop_bit n (x :: ('w::len) word) \<le> x"
proof -
  have "unat (drop_bit n x) = unat x div 2 ^ n"
    by (simp only: unat_drop_bit_eq) (simp only: drop_bit_eq_div)
  then have "unat (drop_bit n x) \<le> unat x"
    by (simp only: div_le_dividend)
  then show ?thesis by (simp only: word_le_nat_alt)
qed

lemma unat_inc_below:
  assumes "x < (T :: ('w::len) word)"
  shows "unat (x + 1) = unat x + 1"
proof -
  have "unat x < unat T" using assms by (simp only: word_less_nat_alt)
  moreover have "unat T < 2 ^ LENGTH('w)" by (rule unsigned_less)
  ultimately have "unat x + 1 < 2 ^ LENGTH('w)" by linarith
  then show ?thesis by (simp add: unat_word_ariths)
qed

lemma unat_halved: "unat (drop_bit 1 (x :: ('w::len) word)) = unat x div 2"
  by (simp only: unat_drop_bit_eq) (simp only: drop_bit_eq_div power_one_right)

lemma debounce_count_bounded:
  assumes "activeCount st \<le> T" and "inactiveCount st \<le> T"
  shows "activeCount (debounce_count T detected st) \<le> T"
    and "inactiveCount (debounce_count T detected st) \<le> T"
  using assms drop_bit_word_le [of 1 "activeCount st"] drop_bit_word_le [of 1 "inactiveCount st"]
  by (auto simp: debounce_count_def inc_le)

lemma debounce_count_no_wrap:
  "unat (activeCount (debounce_count T True st))
     = (if activeCount st < T then unat (activeCount st) + 1 else unat (activeCount st))"
  "unat (inactiveCount (debounce_count T True st)) = unat (inactiveCount st) div 2"
  "unat (inactiveCount (debounce_count T False st))
     = (if inactiveCount st < T then unat (inactiveCount st) + 1 else unat (inactiveCount st))"
  "unat (activeCount (debounce_count T False st)) = unat (activeCount st) div 2"
  using unat_halved [of "activeCount st"] unat_halved [of "inactiveCount st"]
  by (simp_all add: debounce_count_def unat_inc_below)

lemma scan_key_counts_bounded:
  assumes "scan_key cfg scanNum detected key s = Inr s'"
    and "counts_bounded (DebounceDivThreshold_define cfg) s"
  shows "counts_bounded (DebounceDivThreshold_define cfg) s'"
proof -
  let ?T = "DebounceDivThreshold_define cfg"
  let ?c = "Matrix_scanArray s ! key"
  let ?st = "debounce_count ?T detected (reset_state scanNum ?c)"
  from scan_key_effect [OF assms(1) refl] obtain st' where
    key: "key < length (Matrix_scanArray s)"
    and arr: "Matrix_scanArray s' = (Matrix_scanArray s)[key := st']"
    and cnt: "activeCount st' = activeCount ?st" "inactiveCount st' = inactiveCount ?st"
    by blast
  from key assms(2) have "activeCount ?c \<le> ?T" "inactiveCount ?c \<le> ?T"
    by (simp_all add: counts_bounded_def)
  then have "activeCount (reset_state scanNum ?c) \<le> ?T" "inactiveCount (reset_state scanNum ?c) \<le> ?T"
    by simp_all
  from debounce_count_bounded [OF this] cnt have "activeCount st' \<le> ?T" "inactiveCount st' \<le> ?T"
    by simp_all
  with assms(2) show ?thesis
    unfolding counts_bounded_def arr
    by (metis insertE set_update_subset_insert subsetD)
qed

lemma scan_key_resolved:
  assumes "scan_key cfg scanNum detected key s = Inr s'"
    and "all_resolved s"
  shows "all_resolved s'"
proof -
  let ?c = "Matrix_scanArray s ! key"
  let ?st = "debounce_count (DebounceDivThreshold_define cfg) detected (reset_state scanNum ?c)"
  from scan_key_effect [OF assms(1) refl] obtain st' where
    key: "key < length (Matrix_scanArray s)"
    and arr: "Matrix_scanArray s' = (Matrix_scanArray s)[key := st']"
    and cur: "curState ?st \<noteq> KeyState_Invalid \<or> prevState ?st \<noteq> KeyState_Invalid
                \<longrightarrow> curState st' \<noteq> KeyState_Invalid"
    by blast
  from key assms(2) have "curState ?c \<noteq> KeyState_Invalid"
    by (simp add: all_resolved_def)
  then have "curState ?st \<noteq> KeyState_Invalid \<or> prevState ?st \<noteq> KeyState_Invalid"
    by (simp add: reset_state_def)
  with cur have "curState st' \<noteq> KeyState_Invalid" by blast
  with assms(2) show ?thesis
    unfolding all_resolved_def arr
    by (metis insertE set_update_subset_insert subsetD)
qed

lemma scan_key_calls:
  assumes "scan_key cfg scanNum detected key s = Inr s'"
  shows "\<exists>evs. trace s' = trace s @ evs
           \<and> calls_for k evs \<le> (if key = k then 1 else 0)
           \<and> (all_resolved s \<longrightarrow>
                 (\<forall>c \<in> set (keyState_calls evs). snd c \<noteq> KeyState_Invalid)
                 \<and> (scanNum \<noteq> 0 \<longrightarrow> keyState_calls evs = []))"
proof -
  let ?c = "Matrix_scanArray s ! key"
  let ?st = "debounce_count (DebounceDivThreshold_define cfg) detected (reset_state scanNum ?c)"
  have key: "key < length (Matrix_scanArray s)"
    by (rule scan_key_effect(1) [OF assms(1) refl])
  from scan_key_effect(2) [OF assms(1) refl] obtain st' evs where
    arr: "Matrix_scanArray s' = (Matrix_scanArray s)[key := st']"
    and tr: "trace s' = trace s @ evs"
    and calls: "keyState_calls evs = [] \<or> keyState_calls evs = [(key, curState st')]"
    and stored: "curState ?st \<noteq> KeyState_Invalid \<longrightarrow> keyState_calls evs = []"
    and cur: "curState ?st \<noteq> KeyState_Invalid \<or> prevState ?st \<noteq> KeyState_Invalid
                \<longrightarrow> curState st' \<noteq> KeyState_Invalid"
    by blast
  have count: "calls_for k evs \<le> (if key = k then 1 else 0)"
    using calls by (auto simp: calls_for_def)
  have res: "(\<forall>c \<in> set (keyState_calls evs). snd c \<noteq> KeyState_Invalid)
                 \<and> (scanNum \<noteq> 0 \<longrightarrow> keyState_calls evs = [])" if "all_resolved s"
  proof -
    from key that have c: "curState ?c \<noteq> KeyState_Invalid"
      by (simp add: all_resolved_def)
    then have "curState ?st \<noteq> KeyState_Invalid \<or> prevState ?st \<noteq> KeyState_Invalid"
      by (simp add: reset_state_def)
    with cur have "curState st' \<noteq> KeyState_Invalid" by blast
    with calls have "\<forall>c \<in> set (keyState_calls evs). snd c \<noteq> KeyState_Invalid" by auto
    moreover have "keyState_calls evs = []" if "scanNum \<noteq> 0"
      using that c stored by (simp add: reset_state_def)
    ultimately show ?thesis by blast
  qed
  from tr count res show ?thesis by blast
qed

lemma valid_calls_append:
  "valid_calls n xs \<Longrightarrow> valid_calls n ys \<Longrightarrow> valid_calls n (xs @ ys)"
  by (auto simp: valid_calls_def)

lemma valid_calls_silent: "keyState_calls evs = [] \<Longrightarrow> valid_calls n evs"
  by (simp add: valid_calls_def)

lemma all_resolved_emit [simp]: "all_resolved (emit evs s) = all_resolved s"
  by (simp add: all_resolved_def emit_def)

lemma counts_bounded_emit [simp]: "counts_bounded T (emit evs s) = counts_bounded T s"
  by (simp add: counts_bounded_def emit_def)

lemma trace_emit [simp]: "trace (emit evs s) = trace s @ evs"
  by (simp add: emit_def)

subsection \<open>The inner loop\<close>

lemma sense_loop_counts_bounded:
  "sense_loop cfg rd scanNum strobe senses s = Inr s'
     \<Longrightarrow> counts_bounded (DebounceDivThreshold_define cfg) s
     \<Longrightarrow> counts_bounded (DebounceDivThreshold_define cfg) s'"
  by (induction senses arbitrary: s) (auto split: sum.splits dest: scan_key_counts_bounded)

lemma sense_loop_resolved:
  "sense_loop cfg rd scanNum strobe senses s = Inr s' \<Longrightarrow> all_resolved s \<Longrightarrow> all_resolved s'"
  by (induction senses arbitrary: s) (auto split: sum.splits dest: scan_key_resolved)

lemma sense_loop_calls:
  assumes "sense_loop cfg rd scanNum strobe senses s = Inr s'"
  shows "\<exists>evs. trace s' = trace s @ evs
           \<and> calls_for k evs \<le> visits cfg k strobe senses
           \<and> (all_resolved s \<longrightarrow> valid_calls scanNum evs)"
  using assms
proof (induction senses arbitrary: s)
  case Nil
  then show ?case by (simp add: valid_calls_def)
next
  case (Cons sense senses)
  then obtain s1 where
    s1: "scan_key cfg scanNum (rd strobe sense) (key_index cfg strobe sense) s = Inr s1"
    and rest: "sense_loop cfg rd scanNum strobe senses s1 = Inr s'"
    by (auto split: sum.splits)
  from scan_key_calls [OF s1, of k] obtain evs1 where
    e1: "trace s1 = trace s @ evs1"
      "calls_for k evs1 \<le> (if key_index cfg strobe sense = k then 1 else 0)"
      "all_resolved s \<longrightarrow> valid_calls scanNum evs1"
    unfolding valid_calls_def by blast
  from Cons.IH [OF rest] obtain evs2 where
    e2: "trace s' = trace s1 @ evs2"
      "calls_for k evs2 \<le> visits cfg k strobe senses"
      "all_resolved s1 \<longrightarrow> valid_calls scanNum evs2"
    by blast
  have "trace s' = trace s @ (evs1 @ evs2)"
    using e1(1) e2(1) by simp
  moreover have "calls_for k (evs1 @ evs2) \<le> visits cfg k strobe (sense # senses)"
    using e1(2) e2(2) by (auto simp: visits_def split: if_splits)
  moreover have "all_resolved s \<longrightarrow> valid_calls scanNum (evs1 @ evs2)"
    using e1(3) e2(3) scan_key_resolved [OF s1] by (auto intro: valid_calls_append)
  ultimately show ?case by blast
qed

subsection \<open>The outer loop\<close>

lemma strobe_loop_counts_bounded:
  "strobe_loop cfg rd scanNum strobes s = Inr s'
     \<Longrightarrow> counts_bounded (DebounceDivThreshold_define cfg) s
     \<Longrightarrow> counts_bounded (DebounceDivThreshold_define cfg) s'"
proof (induction strobes arbitrary: s)
  case Nil
  then show ?case by simp
next
  case (Cons strobe strobes)
  then obtain s1 where
    s1: "sense_loop cfg rd scanNum strobe [0..<Matrix_rowsNum cfg]
           (emit [Matrix_pin Type_StrobeOn strobe] s) = Inr s1"
    and rest: "strobe_loop cfg rd scanNum strobes (emit [Matrix_pin Type_StrobeOff strobe] s1)
           = Inr s'"
    by (auto split: sum.splits if_splits)
  from sense_loop_counts_bounded [OF s1] Cons.prems(2)
  have "counts_bounded (DebounceDivThreshold_define cfg) s1" by simp
  with Cons.IH [OF rest] show ?case by simp
qed

lemma strobe_loop_resolved:
  "strobe_loop cfg rd scanNum strobes s = Inr s' \<Longrightarrow> all_resolved s \<Longrightarrow> all_resolved s'"
proof (induction strobes arbitrary: s)
  case Nil
  then show ?case by simp
next
  case (Cons strobe strobes)
  then obtain s1 where
    s1: "sense_loop cfg rd scanNum strobe [0..<Matrix_rowsNum cfg]
           (emit [Matrix_pin Type_StrobeOn strobe] s) = Inr s1"
    and rest: "strobe_loop cfg rd scanNum strobes (emit [Matrix_pin Type_StrobeOff strobe] s1)
           = Inr s'"
    by (auto split: sum.splits if_splits)
  from sense_loop_resolved [OF s1] Cons.prems(2) have "all_resolved s1" by simp
  with Cons.IH [OF rest] show ?case by simp
qed

lemma strobe_loop_calls:
  assumes "strobe_loop cfg rd scanNum strobes s = Inr s'"
  shows "\<exists>evs. trace s' = trace s @ evs
           \<and> calls_for k evs \<le> all_visits cfg k strobes
           \<and> (all_resolved s \<longrightarrow> valid_calls scanNum evs)"
  using assms
proof (induction strobes arbitrary: s)
  case Nil
  then show ?case by (simp add: valid_calls_def)
next
  case (Cons strobe strobes)
  let ?on = "emit [Matrix_pin Type_StrobeOn strobe] s"
  from Cons.prems obtain s1 where
    s1: "sense_loop cfg rd scanNum strobe [0..<Matrix_rowsNum cfg] ?on = Inr s1"
    and rest: "strobe_loop cfg rd scanNum strobes (emit [Matrix_pin Type_StrobeOff strobe] s1)
           = Inr s'"
    by (auto split: sum.splits if_splits)
  let ?off = "emit [Matrix_pin Type_StrobeOff strobe] s1"
  from sense_loop_calls [OF s1, of k] obtain evs1 where
    e1: "trace s1 = trace ?on @ evs1"
      "calls_for k evs1 \<le> visits cfg k strobe [0..<Matrix_rowsNum cfg]"
      "all_resolved ?on \<longrightarrow> valid_calls scanNum evs1"
    by blast
  from Cons.IH [OF rest] obtain evs2 where
    e2: "trace s' = trace ?off @ evs2"
      "calls_for k evs2 \<le> all_visits cfg k strobes"
      "all_resolved ?off \<longrightarrow> valid_calls scanNum evs2"
    by blast
  let ?evs = "[Matrix_pin Type_StrobeOn strobe] @ evs1 @ [Matrix_pin Type_StrobeOff strobe] @ evs2"
  have "trace s' = trace s @ ?evs"
    using e1(1) e2(1) by simp
  moreover have "calls_for k ?evs \<le> all_visits cfg k (strobe # strobes)"
    using e1(2) e2(2) by (simp add: all_visits_def calls_for_def)
  moreover have "all_resolved s \<longrightarrow> valid_calls scanNum ?evs"
  proof
    assume r: "all_resolved s"
    with e1(3) have v1: "valid_calls scanNum evs1" by simp
    from sense_loop_resolved [OF s1] r have "all_resolved s1" by simp
    with e2(3) have v2: "valid_calls scanNum evs2" by simp
    from v1 v2 show "valid_calls scanNum ?evs"
      by (auto simp: valid_calls_def)
  qed
  ultimately show ?case by blast
qed

lemma filter_unique_length:
  assumes "distinct xs" and "\<And>x y. x \<in> set xs \<Longrightarrow> y \<in> set xs \<Longrightarrow> P x \<Longrightarrow> P y \<Longrightarrow> x = y"
  shows "length (filter P xs) \<le> 1"
  using assms
proof (induction xs)
  case Nil
  then show ?case by simp
next
  case (Cons x xs)
  show ?case
  proof (cases "P x")
    case True
    have "filter P xs = []"
    proof (rule ccontr)
      assume "filter P xs \<noteq> []"
      then obtain y where y: "y \<in> set xs" "P y"
        by (metis filter_False)
      with Cons.prems(2) [of x y] True have "x = y" by simp
      with y(1) Cons.prems(1) show False by simp
    qed
    with True show ?thesis by simp
  next
    case False
    with Cons show ?thesis by simp
  qed
qed

lemma sum_list_single:
  assumes "distinct xs" and "\<And>x. x \<in> set xs \<Longrightarrow> f x \<le> (1::nat)"
    and "\<And>x. x \<in> set xs \<Longrightarrow> x \<noteq> a \<Longrightarrow> f x = 0"
  shows "sum_list (map f xs) \<le> 1"
  using assms
proof (induction xs)
  case Nil
  then show ?case by simp
next
  case (Cons x xs)
  show ?case
  proof (cases "x = a")
    case True
    with Cons.prems(1) have "\<And>y. y \<in> set xs \<Longrightarrow> y \<noteq> a" by auto
    with Cons.prems(3) have "\<And>y. y \<in> set xs \<Longrightarrow> f y = 0" by simp
    then have z: "sum_list (map f xs) = 0" by simp
    show ?thesis using Cons.prems(2) [of x] by (simp add: z)
  next
    case False
    with Cons.prems(3) [of x] have "f x = 0" by simp
    moreover from Cons have "sum_list (map f xs) \<le> 1" by simp
    ultimately show ?thesis by simp
  qed
qed

lemma key_index_exact:
  assumes "config_ok cfg" and "strobe < Matrix_colsNum cfg" and "sense < Matrix_rowsNum cfg"
  shows "key_index cfg strobe sense = Matrix_colsNum cfg * sense + strobe"
proof -
  have "Matrix_colsNum cfg * sense + strobe < Matrix_colsNum cfg * Suc sense"
    using assms(2) by simp
  also have "\<dots> \<le> Matrix_colsNum cfg * Matrix_rowsNum cfg"
    using assms(3) by (intro mult_le_mono2) simp
  finally have "Matrix_colsNum cfg * sense + strobe < 256"
    using assms(1) by (simp add: config_ok_def Matrix_maxKeys_def)
  then show ?thesis by (simp add: key_index_def)
qed

lemma visits_le_1:
  assumes "config_ok cfg" and "strobe < Matrix_colsNum cfg"
  shows "visits cfg k strobe [0..<Matrix_rowsNum cfg] \<le> 1"
  unfolding visits_def
proof (rule filter_unique_length)
  show "distinct [0..<Matrix_rowsNum cfg]" by simp
next
  fix x y
  assume "x \<in> set [0..<Matrix_rowsNum cfg]" "y \<in> set [0..<Matrix_rowsNum cfg]"
    and "key_index cfg strobe x = k" "key_index cfg strobe y = k"
  then have "Matrix_colsNum cfg * x + strobe = Matrix_colsNum cfg * y + strobe"
    using key_index_exact [OF assms] by simp
  with assms(2) show "x = y" by simp
qed

lemma visits_other_strobe:
  assumes "config_ok cfg" and "strobe < Matrix_colsNum cfg"
    and "strobe \<noteq> k mod Matrix_colsNum cfg"
  shows "visits cfg k strobe [0..<Matrix_rowsNum cfg] = 0"
proof -
  have "key_index cfg strobe sense \<noteq> k" if "sense < Matrix_rowsNum cfg" for sense
  proof
    assume "key_index cfg strobe sense = k"
    with key_index_exact [OF assms(1,2) that]
    have "k = Matrix_colsNum cfg * sense + strobe" by simp
    then have "k mod Matrix_colsNum cfg = strobe" using assms(2) by simp
    with assms(3) show False by simp
  qed
  then show ?thesis by (simp add: visits_def)
qed

lemma all_visits_le_1:
  assumes "config_ok cfg"
  shows "all_visits cfg k [0..<Matrix_colsNum cfg] \<le> 1"
  unfolding all_visits_def
proof (rule sum_list_single [where a = "k mod Matrix_colsNum cfg"])
  show "distinct [0..<Matrix_colsNum cfg]" by simp
next
  fix x assume "x \<in> set [0..<Matrix_colsNum cfg]"
  then show "visits cfg k x [0..<Matrix_rowsNum cfg] \<le> 1"
    using visits_le_1 [OF assms] by simp
next
  fix x assume "x \<in> set [0..<Matrix_colsNum cfg]" "x \<noteq> k mod Matrix_colsNum cfg"
  then show "visits cfg k x [0..<Matrix_rowsNum cfg] = 0"
    using visits_other_strobe [OF assms] by simp
qed

subsection \<open>One call of \<open>Matrix_scan\<close>\<close>

lemma state_table_entry_silent: "keyState_calls (state_table_entry e) = []"
  by (cases e) (simp add: state_table_entry_def)

lemma state_table_silent: "keyState_calls (concat (map state_table_entry es)) = []"
  by (induction es) (simp_all add: state_table_entry_silent)

lemma state_table_debug_trace:
  "state_table_debug cfg n s = Inr s'
     \<Longrightarrow> \<exists>evs. trace s' = trace s @ evs \<and> keyState_calls evs = []"
  by (auto simp: state_table_debug_def emit_def state_table_silent split: if_splits)

lemma Matrix_scan_counts_bounded:
  assumes "Matrix_scan cfg rd scanNum s = Inr s'"
    and "counts_bounded (DebounceDivThreshold_define cfg) s"
  shows "counts_bounded (DebounceDivThreshold_define cfg) s'"
  using assms(1)
proof (cases rule: Matrix_scan_cases)
  case skipped
  with assms(2) show ?thesis by (simp add: counts_bounded_def)
next
  case (scanned s2)
  have "counts_bounded (DebounceDivThreshold_define cfg)
          (scan_stats scanNum (s\<lparr>Matrix_divCounter := Matrix_divCounter s + 1\<rparr>))"
    using assms(2) by (simp add: counts_bounded_def scan_stats_kept)
  from strobe_loop_counts_bounded [OF scanned(2) this] show ?thesis
    by (simp add: counts_bounded_def state_table_debug_kept [OF scanned(3)])
qed

lemma Matrix_scan_resolved:
  assumes "Matrix_scan cfg rd scanNum s = Inr s'" and "all_resolved s"
  shows "all_resolved s'"
  using assms(1)
proof (cases rule: Matrix_scan_cases)
  case skipped
  with assms(2) show ?thesis by (simp add: all_resolved_def)
next
  case (scanned s2)
  have "all_resolved (scan_stats scanNum (s\<lparr>Matrix_divCounter := Matrix_divCounter s + 1\<rparr>))"
    using assms(2) by (simp add: all_resolved_def scan_stats_kept)
  from strobe_loop_resolved [OF scanned(2) this] show ?thesis
    by (simp add: all_resolved_def state_table_debug_kept [OF scanned(3)])
qed

lemma Matrix_scan_calls:
  assumes "Matrix_scan cfg rd scanNum s = Inr s'"
  shows "\<exists>evs. trace s' = trace s @ evs
           \<and> calls_for k evs \<le> all_visits cfg k [0..<Matrix_colsNum cfg]
           \<and> (all_resolved s \<longrightarrow> valid_calls scanNum evs)"
  using assms
proof (cases rule: Matrix_scan_cases)
  case skipped
  then have "trace s' = trace s @ []" by simp
  then show ?thesis
    by (intro exI [of _ "[]"]) (simp add: valid_calls_def)
next
  case (scanned s2)
  let ?s1 = "scan_stats scanNum (s\<lparr>Matrix_divCounter := Matrix_divCounter s + 1\<rparr>)"
  from strobe_loop_calls [OF scanned(2), of k] obtain evs1 where
    e1: "trace s2 = trace ?s1 @ evs1"
      "calls_for k evs1 \<le> all_visits cfg k [0..<Matrix_colsNum cfg]"
      "all_resolved ?s1 \<longrightarrow> valid_calls scanNum evs1"
    by blast
  from state_table_debug_trace [OF scanned(3)] obtain evs2 where
    e2: "trace s' = trace s2 @ evs2" "keyState_calls evs2 = []"
    by blast
  have "trace s' = trace s @ (evs1 @ evs2)"
    using e1(1) e2(1) by (simp add: scan_stats_kept)
  moreover have "calls_for k (evs1 @ evs2) \<le> all_visits cfg k [0..<Matrix_colsNum cfg]"
    using e1(2) e2(2) by (simp add: calls_for_def)
  moreover have "all_resolved s \<longrightarrow> valid_calls scanNum (evs1 @ evs2)"
    using e1(3) e2(2)
    by (auto simp: all_resolved_def scan_stats_kept intro: valid_calls_append valid_calls_silent)
  ultimately show ?thesis by blast
qed

subsection \<open>Sequences of calls\<close>

lemma Matrix_setup_cases:
  assumes "Matrix_setup cfg s = Inr s'"
  obtains "config_ok cfg" "s' = setup_globals cfg s"
  using assms by (auto simp: Matrix_setup_def split: if_splits)

lemma setup_globals_arrays_ok: "arrays_ok cfg (setup_globals cfg s)"
  by (simp add: arrays_ok_def setup_globals_def)

lemma setup_globals_resolved: "all_resolved (setup_globals cfg s)"
  by (simp add: all_resolved_def setup_globals_def)

lemma setup_globals_counts_bounded:
  "counts_bounded (DebounceDivThreshold_define cfg) (setup_globals cfg s)"
  by (simp add: counts_bounded_def setup_globals_def)

lemma Matrix_setup_establishes:
  assumes "Matrix_setup cfg s = Inr s'"
  shows "config_ok cfg" and "arrays_ok cfg s'" and "all_resolved s'"
    and "counts_bounded (DebounceDivThreshold_define cfg) s'"
    and "Matrix_repeatThreshold s' = Matrix_repeatThreshold s"
    and "Matrix_timesRelease s' = replicate 32 0" and "Matrix_timesPress s' = replicate 32 0"
  using assms
  by (cases rule: Matrix_setup_cases;
      simp add: setup_globals_arrays_ok setup_globals_resolved setup_globals_counts_bounded;
      simp add: setup_globals_def)+

lemma Matrix_scan_arrays_ok:
  "Matrix_scan cfg rd scanNum s = Inr s' \<Longrightarrow> arrays_ok cfg s \<Longrightarrow> arrays_ok cfg s'"
  by (simp add: arrays_ok_def Matrix_scan_divCounter)

lemma run_scans_arrays_ok:
  "run_scans cfg calls s = Inr s' \<Longrightarrow> arrays_ok cfg s \<Longrightarrow> arrays_ok cfg s'"
  by (induction calls arbitrary: s) (auto split: sum.splits dest: Matrix_scan_arrays_ok)

lemma run_scans_repeatThreshold:
  "run_scans cfg calls s = Inr s' \<Longrightarrow> Matrix_repeatThreshold s' = Matrix_repeatThreshold s"
  by (induction calls arbitrary: s) (auto split: sum.splits dest: Matrix_scan_divCounter(2))

lemma run_scans_returns:
  assumes "config_ok cfg" and "arrays_ok cfg s" and "Matrix_repeatThreshold s \<noteq> 0"
  shows "\<exists>s'. run_scans cfg calls s = Inr s'"
  using assms(2,3)
proof (induction calls arbitrary: s)
  case Nil
  then show ?case by simp
next
  case (Cons call calls)
  from Matrix_scan_returns [OF assms(1) Cons.prems, of "snd call" "fst call"] obtain s1 where
    s1: "Matrix_scan cfg (snd call) (fst call) s = Inr s1" by blast
  from Matrix_scan_arrays_ok [OF s1 Cons.prems(1)] Matrix_scan_divCounter(2) [OF s1] Cons.prems(2)
  have "arrays_ok cfg s1" "Matrix_repeatThreshold s1 \<noteq> 0" by simp_all
  from Cons.IH [OF this] s1 show ?case by simp
qed

lemma run_scans_counts_bounded:
  "run_scans cfg calls s = Inr s'
     \<Longrightarrow> counts_bounded (DebounceDivThreshold_define cfg) s
     \<Longrightarrow> counts_bounded (DebounceDivThreshold_define cfg) s'"
  by (induction calls arbitrary: s) (auto split: sum.splits dest: Matrix_scan_counts_bounded)

lemma run_scans_resolved:
  "run_scans cfg calls s = Inr s' \<Longrightarrow> all_resolved s \<Longrightarrow> all_resolved s'"
  by (induction calls arbitrary: s) (auto split: sum.splits dest: Matrix_scan_resolved)

lemma run_scans_calls:
  assumes "run_scans cfg calls s = Inr s'" and "all_resolved s"
  shows "\<exists>evs. trace s' = trace s @ evs
           \<and> (\<forall>c \<in> set (keyState_calls evs). snd c \<noteq> KeyState_Invalid)
           \<and> ((\<forall>call \<in> set calls. fst call \<noteq> 0) \<longrightarrow> keyState_calls evs = [])"
  using assms
proof (induction calls arbitrary: s)
  case Nil
  then show ?case by simp
next
  case (Cons call calls)
  then obtain s1 where
    s1: "Matrix_scan cfg (snd call) (fst call) s = Inr s1"
    and rest: "run_scans cfg calls s1 = Inr s'"
    by (auto split: sum.splits)
  from Matrix_scan_calls [OF s1, of 0] Cons.prems(2) obtain evs1 where
    e1: "trace s1 = trace s @ evs1" "valid_calls (fst call) evs1"
    by blast
  from Matrix_scan_resolved [OF s1 Cons.prems(2)] have "all_resolved s1" .
  from Cons.IH [OF rest this] obtain evs2 where
    e2: "trace s' = trace s1 @ evs2"
      "\<forall>c \<in> set (keyState_calls evs2). snd c \<noteq> KeyState_Invalid"
      "(\<forall>call \<in> set calls. fst call \<noteq> 0) \<longrightarrow> keyState_calls evs2 = []"
    by blast
  have "trace s' = trace s @ (evs1 @ evs2)"
    using e1(1) e2(1) by simp
  moreover have "\<forall>c \<in> set (keyState_calls (evs1 @ evs2)). snd c \<noteq> KeyState_Invalid"
    using e1(2) e2(2) by (auto simp: valid_calls_def)
  moreover have "(\<forall>call \<in> set (call # calls). fst call \<noteq> 0)
      \<longrightarrow> keyState_calls (evs1 @ evs2) = []"
    using e1(2) e2(3) by (auto simp: valid_calls_def)
  ultimately show ?case by blast
qed

lemma keyState_calls_set:
  "(key, st) \<in> set (keyState_calls evs) \<longleftrightarrow> Macro_keyState key st \<in> set evs"
  by (induction evs rule: keyState_calls.induct) auto

lemma start_state_setup: "Matrix_setup cfg_1x1 (boot_state cfg_1x1) = Inr start_state"
  by (simp add: Matrix_setup_def start_state_def cfg_1x1_ok)

lemma start_state_ok:
  "arrays_ok cfg_1x1 start_state" "Matrix_repeatThreshold start_state = 16"
  "Matrix_repeatThreshold start_state \<noteq> 0"
proof -
  show "arrays_ok cfg_1x1 start_state"
    unfolding start_state_def by (rule setup_globals_arrays_ok)
  show "Matrix_repeatThreshold start_state = 16" "Matrix_repeatThreshold start_state \<noteq> 0"
    by (simp_all add: start_state_def setup_globals_def boot_state_def)
qed

lemma start_state_lengths:
  "0 < length (Matrix_scanArray start_state)"
  "length (Matrix_timesRelease start_state) = 32" "length (Matrix_timesPress start_state) = 32"
  using start_state_ok(1) by (simp_all add: arrays_ok_def cfg_1x1_ok)

text \<open>
  Claim C3. After \<open>Matrix_setup\<close> and any sequence of calls of \<open>Matrix_scan\<close>, with any
  samples, every cell's \<open>activeCount\<close> and \<open>inactiveCount\<close> are at most the threshold
  \<open>DebounceDivThreshold_define\<close>. The bound also holds between the calls: the scan of
  each single key keeps it, and so does the counting step on a cell. The counter that is
  shifted right is halved as a natural number, so no counter goes below 0.
\<close>

theorem counters_saturate:
  fixes cfg :: "('w::len) word config" and T :: "'w word"
  shows
    "(Matrix_setup cfg s0 = Inr s1 \<and> run_scans cfg calls s1 = Inr s \<longrightarrow>
        (\<forall>c \<in> set (Matrix_scanArray s).
           activeCount c \<le> DebounceDivThreshold_define cfg
           \<and> inactiveCount c \<le> DebounceDivThreshold_define cfg))
     \<and> (counts_bounded (DebounceDivThreshold_define cfg) s2
          \<and> scan_key cfg scanNum detected key s2 = Inr s3 \<longrightarrow>
        counts_bounded (DebounceDivThreshold_define cfg) s3)
     \<and> (activeCount st \<le> T \<and> inactiveCount st \<le> T \<longrightarrow>
        activeCount (debounce_count T detected st) \<le> T
        \<and> inactiveCount (debounce_count T detected st) \<le> T)
     \<and> unat (inactiveCount (debounce_count T True st)) = unat (inactiveCount st) div 2
     \<and> unat (activeCount (debounce_count T False st)) = unat (activeCount st) div 2"
proof (intro conjI impI)
  assume a: "Matrix_setup cfg s0 = Inr s1 \<and> run_scans cfg calls s1 = Inr s"
  then have "counts_bounded (DebounceDivThreshold_define cfg) s1"
    using Matrix_setup_establishes(4) by blast
  with a have "counts_bounded (DebounceDivThreshold_define cfg) s"
    using run_scans_counts_bounded by blast
  then show "\<forall>c \<in> set (Matrix_scanArray s).
           activeCount c \<le> DebounceDivThreshold_define cfg
           \<and> inactiveCount c \<le> DebounceDivThreshold_define cfg"
    by (simp add: counts_bounded_def)
next
  assume "counts_bounded (DebounceDivThreshold_define cfg) s2
          \<and> scan_key cfg scanNum detected key s2 = Inr s3"
  then show "counts_bounded (DebounceDivThreshold_define cfg) s3"
    using scan_key_counts_bounded by blast
next
  assume "activeCount st \<le> T \<and> inactiveCount st \<le> T"
  then show "activeCount (debounce_count T detected st) \<le> T"
    using debounce_count_bounded(1) by blast
next
  assume "activeCount st \<le> T \<and> inactiveCount st \<le> T"
  then show "inactiveCount (debounce_count T detected st) \<le> T"
    using debounce_count_bounded(2) by blast
next
  show "unat (inactiveCount (debounce_count T True st)) = unat (inactiveCount st) div 2"
    by (rule debounce_count_no_wrap(2))
next
  show "unat (activeCount (debounce_count T False st)) = unat (activeCount st) div 2"
    by (rule debounce_count_no_wrap(4))
qed

theorem counters_saturate_witness:
  "Matrix_setup cfg_1x1 (boot_state cfg_1x1) = Inr start_state
   \<and> (\<exists>s. run_scans cfg_1x1 [(0, all_closed), (1, all_open)] start_state = Inr s
      \<and> activeCount (Matrix_scanArray s ! 0) \<le> 0xFFFF
      \<and> inactiveCount (Matrix_scanArray s ! 0) \<le> 0xFFFF)
   \<and> (\<exists>s3. scan_key cfg_1x1 0 True 0 start_state = Inr s3 \<and> counts_bounded 0xFFFF s3)
   \<and> activeCount (debounce_count 0xFFFF True (Matrix_scanArray start_state ! 0)) \<le> (0xFFFF :: 16 word)
   \<and> inactiveCount (debounce_count 0xFFFF True (Matrix_scanArray start_state ! 0)) \<le> (0xFFFF :: 16 word)"
proof -
  let ?T = "0xFFFF :: 16 word"
  let ?c = "Matrix_scanArray start_state ! 0"
  from run_scans_returns [OF cfg_1x1_ok(1) start_state_ok(1,3)] obtain s where
    run: "run_scans cfg_1x1 [(0, all_closed), (1, all_open)] start_state = Inr s"
    by blast
  from run_scans_arrays_ok [OF run start_state_ok(1)]
  have len: "Matrix_scanArray s ! 0 \<in> set (Matrix_scanArray s)"
    by (simp add: arrays_ok_def cfg_1x1_ok)
  have T: "DebounceDivThreshold_define cfg_1x1 = ?T"
    by (simp add: cfg_1x1_def)
  have bounded: "counts_bounded ?T start_state"
    using setup_globals_counts_bounded [of cfg_1x1 "boot_state cfg_1x1"]
    by (simp add: start_state_def T)
  from scan_key_returns [OF start_state_lengths start_state_ok(3), of cfg_1x1 0 True]
  obtain s3 where key: "scan_key cfg_1x1 0 True 0 start_state = Inr s3"
    by blast
  have cell: "activeCount ?c \<le> ?T \<and> inactiveCount ?c \<le> ?T"
    by (simp add: start_state_def setup_globals_def cfg_1x1_def Matrix_maxKeys_def)
  note inst = counters_saturate [where cfg = cfg_1x1
      and calls = "[(0, all_closed), (1, all_open)]" and ?s0.0 = "boot_state cfg_1x1"
      and ?s1.0 = start_state and s = s
      and ?s2.0 = start_state and scanNum = 0 and detected = True and key = 0 and ?s3.0 = s3
      and st = ?c and T = ?T]
  from inst start_state_setup run len have a: "activeCount (Matrix_scanArray s ! 0) \<le> ?T
      \<and> inactiveCount (Matrix_scanArray s ! 0) \<le> ?T"
    unfolding T by blast
  from inst bounded key have b: "counts_bounded ?T s3"
    unfolding T by blast
  from inst cell have c: "activeCount (debounce_count ?T True ?c) \<le> ?T
      \<and> inactiveCount (debounce_count ?T True ?c) \<le> ?T"
    by blast
  from start_state_setup a b c run key show ?thesis by blast
qed

text \<open>
  Claim C8. In every execution from the state that \<open>Matrix_setup\<close> establishes,
  \<open>Macro_keyState\<close> is never called with \<open>KeyState_Invalid\<close>. Whenever the scan of a key
  calls it, the cell was unresolved at the start of the scan of the key, and the call is for
  that key, with the state the cell has been resolved to.
\<close>

theorem keyState_never_invalid:
  fixes cfg :: "('w::len) word config"
  shows
    "(Matrix_setup cfg s0 = Inr s1 \<and> run_scans cfg calls s1 = Inr s \<longrightarrow>
        (\<exists>evs. trace s = trace s1 @ evs
           \<and> (\<forall>key. Macro_keyState key KeyState_Invalid \<notin> set evs)))
     \<and> (scan_key cfg scanNum detected key s2 = Inr s3 \<longrightarrow>
        (\<exists>evs. trace s3 = trace s2 @ evs
           \<and> (\<forall>k p. Macro_keyState k p \<in> set evs \<longrightarrow>
                 k = key \<and> p = curState (Matrix_scanArray s3 ! key)
                 \<and> curState (reset_state scanNum (Matrix_scanArray s2 ! key))
                     = KeyState_Invalid)))"
proof (intro conjI impI)
  assume a: "Matrix_setup cfg s0 = Inr s1 \<and> run_scans cfg calls s1 = Inr s"
  then have "all_resolved s1"
    using Matrix_setup_establishes(3) by blast
  with a run_scans_calls [of cfg calls s1 s] obtain evs where
    evs: "trace s = trace s1 @ evs"
      "\<forall>c \<in> set (keyState_calls evs). snd c \<noteq> KeyState_Invalid"
    by blast
  have "Macro_keyState key KeyState_Invalid \<notin> set evs" for key
    using evs(2) keyState_calls_set [of key KeyState_Invalid evs] by auto
  with evs(1) show "\<exists>evs. trace s = trace s1 @ evs
           \<and> (\<forall>key. Macro_keyState key KeyState_Invalid \<notin> set evs)"
    by blast
next
  assume run: "scan_key cfg scanNum detected key s2 = Inr s3"
  let ?st = "debounce_count (DebounceDivThreshold_define cfg) detected
               (reset_state scanNum (Matrix_scanArray s2 ! key))"
  have key: "key < length (Matrix_scanArray s2)"
    by (rule scan_key_effect(1) [OF run refl])
  from scan_key_effect(2) [OF run refl] obtain st' evs where
    arr: "Matrix_scanArray s3 = (Matrix_scanArray s2)[key := st']"
    and tr: "trace s3 = trace s2 @ evs"
    and calls: "keyState_calls evs = [] \<or> keyState_calls evs = [(key, curState st')]"
    and stored: "curState ?st \<noteq> KeyState_Invalid \<longrightarrow> keyState_calls evs = []"
    by blast
  have cell: "Matrix_scanArray s3 ! key = st'"
    using key by (simp add: arr)
  have "k = key \<and> p = curState (Matrix_scanArray s3 ! key)
          \<and> curState (reset_state scanNum (Matrix_scanArray s2 ! key)) = KeyState_Invalid"
    if "Macro_keyState k p \<in> set evs" for k p
  proof -
    from that have in_calls: "(k, p) \<in> set (keyState_calls evs)"
      by (simp add: keyState_calls_set)
    with calls have "keyState_calls evs = [(key, curState st')]" by auto
    with in_calls stored cell show ?thesis by auto
  qed
  with tr show "\<exists>evs. trace s3 = trace s2 @ evs
           \<and> (\<forall>k p. Macro_keyState k p \<in> set evs \<longrightarrow>
                 k = key \<and> p = curState (Matrix_scanArray s3 ! key)
                 \<and> curState (reset_state scanNum (Matrix_scanArray s2 ! key))
                     = KeyState_Invalid)"
    by blast
qed

theorem keyState_never_invalid_witness:
  "Matrix_setup cfg_1x1 (boot_state cfg_1x1) = Inr start_state
   \<and> (\<exists>s evs. run_scans cfg_1x1 [(0, all_closed), (1, all_closed)] start_state = Inr s
      \<and> trace s = trace start_state @ evs
      \<and> Macro_keyState 0 KeyState_Invalid \<notin> set evs)
   \<and> (\<exists>s3 evs. scan_key cfg_1x1 1 True 0 (one_key_state KeyState_Off 10 0 100) = Inr s3
      \<and> trace s3 = trace (one_key_state KeyState_Off 10 0 100) @ evs
      \<and> Macro_keyState 0 KeyState_Press \<in> set evs
      \<and> curState (Matrix_scanArray s3 ! 0) = KeyState_Press)"
proof -
  from run_scans_returns [OF cfg_1x1_ok(1) start_state_ok(1,3)] obtain s where
    run: "run_scans cfg_1x1 [(0, all_closed), (1, all_closed)] start_state = Inr s"
    by blast
  let ?s2 = "one_key_state KeyState_Off 10 0 100"
  have "result_of trace (scan_key cfg_1x1 1 True 0 ?s2) = Some [Macro_keyState 0 KeyState_Press]"
    by code_simp
  then obtain s3 where
    key: "scan_key cfg_1x1 1 True 0 ?s2 = Inr s3"
    and tr: "trace s3 = [Macro_keyState 0 KeyState_Press]"
    by (auto simp: result_of_def split: sum.splits)
  have t1: "trace ?s2 = []"
    by (simp add: one_key_defs)
  note inst = keyState_never_invalid [where cfg = cfg_1x1
      and calls = "[(0, all_closed), (1, all_closed)]" and ?s0.0 = "boot_state cfg_1x1"
      and ?s1.0 = start_state and s = s
      and scanNum = 1 and detected = True and key = 0 and ?s2.0 = ?s2 and ?s3.0 = s3]
  from inst start_state_setup run have a: "\<exists>evs. trace s = trace start_state @ evs
      \<and> Macro_keyState 0 KeyState_Invalid \<notin> set evs"
    by blast
  from inst key obtain evs where
    evs: "trace s3 = trace ?s2 @ evs"
      "\<forall>k p. Macro_keyState k p \<in> set evs \<longrightarrow>
                 k = 0 \<and> p = curState (Matrix_scanArray s3 ! 0)
                 \<and> curState (reset_state 1 (Matrix_scanArray ?s2 ! 0)) = KeyState_Invalid"
    by blast
  from evs(1) tr t1 have "Macro_keyState 0 KeyState_Press \<in> set evs" by auto
  with evs(2) have "curState (Matrix_scanArray s3 ! 0) = KeyState_Press" by metis
  with \<open>Macro_keyState 0 KeyState_Press \<in> set evs\<close> evs(1) key a run start_state_setup
  show ?thesis by blast
qed

text \<open>
  Claim C2. A pass is a call of \<open>Matrix_scan\<close> with \<open>scanNum = 0\<close> followed by calls with
  other values of \<open>scanNum\<close>, in a state that calls of \<open>Matrix_scan\<close> have reached from
  \<open>Matrix_setup\<close>. During the pass \<open>Macro_keyState\<close> is called at most once for a key, and
  at the end of the pass the key's \<open>curState\<close> is not \<open>KeyState_Invalid\<close>.
\<close>

theorem one_call_per_pass:
  fixes cfg :: "('w::len) word config"
  assumes "Matrix_setup cfg s0 = Inr s1"
    and "run_scans cfg before s1 = Inr s"
    and "\<forall>call \<in> set rest. fst call \<noteq> 0"
    and "run_scans cfg ((0, rd) # rest) s = Inr s'"
    and "key < Matrix_maxKeys cfg"
  shows "\<exists>evs. trace s' = trace s @ evs \<and> calls_for key evs \<le> 1
           \<and> curState (Matrix_scanArray s' ! key) \<noteq> KeyState_Invalid"
proof -
  note est = Matrix_setup_establishes [OF assms(1)]
  have res: "all_resolved s"
    by (rule run_scans_resolved [OF assms(2) est(3)])
  have ok: "arrays_ok cfg s"
    by (rule run_scans_arrays_ok [OF assms(2) est(2)])
  from assms(4) obtain s2 where
    first: "Matrix_scan cfg rd 0 s = Inr s2" and others: "run_scans cfg rest s2 = Inr s'"
    by (auto split: sum.splits)
  from Matrix_scan_calls [OF first, of key] obtain evs1 where
    e1: "trace s2 = trace s @ evs1"
      "calls_for key evs1 \<le> all_visits cfg key [0..<Matrix_colsNum cfg]"
    by blast
  have res2: "all_resolved s2"
    by (rule Matrix_scan_resolved [OF first res])
  from run_scans_calls [OF others res2] assms(3) obtain evs2 where
    e2: "trace s' = trace s2 @ evs2" "keyState_calls evs2 = []"
    by blast
  have "trace s' = trace s @ (evs1 @ evs2)"
    using e1(1) e2(1) by simp
  moreover have "calls_for key (evs1 @ evs2) \<le> 1"
    using e1(2) e2(2) all_visits_le_1 [OF est(1), of key] by (simp add: calls_for_def)
  moreover have "curState (Matrix_scanArray s' ! key) \<noteq> KeyState_Invalid"
  proof -
    have "all_resolved s'"
      by (rule run_scans_resolved [OF assms(4) res])
    moreover have "key < length (Matrix_scanArray s')"
      using run_scans_arrays_ok [OF assms(4) ok] assms(5) by (simp add: arrays_ok_def)
    ultimately show ?thesis by (simp add: all_resolved_def)
  qed
  ultimately show ?thesis by blast
qed

theorem one_call_per_pass_witness:
  "Matrix_setup cfg_1x1 (boot_state cfg_1x1) = Inr start_state
   \<and> (\<exists>s' evs. run_scans cfg_1x1 [(0, all_closed), (1, all_closed)] start_state = Inr s'
      \<and> trace s' = trace start_state @ evs \<and> calls_for 0 evs \<le> 1
      \<and> curState (Matrix_scanArray s' ! 0) \<noteq> KeyState_Invalid)"
proof -
  from run_scans_returns [OF cfg_1x1_ok(1) start_state_ok(1,3)] obtain s' where
    run: "run_scans cfg_1x1 [(0, all_closed), (1, all_closed)] start_state = Inr s'"
    by blast
  have before: "run_scans cfg_1x1 [] start_state = Inr start_state"
    by simp
  have rest: "\<forall>call \<in> set [(1 :: 16 word, all_closed)]. fst call \<noteq> 0"
    by simp
  have key: "0 < Matrix_maxKeys cfg_1x1"
    by (simp add: cfg_1x1_ok)
  from one_call_per_pass [OF start_state_setup before rest run key] run start_state_setup
  show ?thesis by blast
qed

section \<open>The histogram buckets below the repeat threshold\<close>

lemma hist_bucket_bounds:
  assumes "hist_bucket diff = Some b"
  shows "diff \<noteq> 0" and "2 ^ unat b \<le> unat diff" and "unat diff < 2 ^ Suc (unat b)"
proof -
  show nz: "diff \<noteq> 0"
    using assms by (auto simp: hist_bucket_def builtin_clzl_def)
  let ?c = "clz_bits 32 diff"
  from clzl_bounds [OF nz] have c: "?c \<le> 31"
    and lo: "2 ^ (31 - ?c) \<le> unat diff" and hi: "unat diff < 2 ^ Suc (31 - ?c)"
    by simp_all
  have "b = word_of_int (31 - int ?c)"
    using assms nz by (simp add: hist_bucket_def builtin_clzl_def)
  then have "unat b = 31 - ?c"
    using bucket_value [OF c] by simp
  with lo hi show "2 ^ unat b \<le> unat diff" "unat diff < 2 ^ Suc (unat b)"
    by simp_all
qed

lemma hist_incr_cases:
  assumes "hist_incr h bucket = Inr h'"
  obtains b where "bucket = Some b" "unat b < length h" "h' = h[unat b := h ! unat b + 1]"
  using assms by (auto simp: hist_incr_def split: option.splits if_splits)

text \<open>A bucket below the logarithm of the threshold is never the one incremented.\<close>

lemma bucket_above_threshold:
  assumes "hist_bucket diff = Some b" and "threshold \<le> diff" and "2 ^ Suc i \<le> unat threshold"
  shows "i < unat b"
proof -
  have "2 ^ Suc i \<le> unat diff"
    using assms(2,3) by (simp add: word_le_nat_alt)
  also have "unat diff < 2 ^ Suc (unat b)"
    by (rule hist_bucket_bounds(3) [OF assms(1)])
  finally have "(2::nat) ^ Suc i < 2 ^ Suc (unat b)" .
  then have "Suc i < Suc (unat b)" by (simp only: power_strict_increasing_iff)
  then show ?thesis by simp
qed

text \<open>What one key's scan does to the histograms.\<close>

lemma scan_key_hist:
  assumes "scan_key cfg scanNum detected key s = Inr s'"
  shows "(Matrix_timesRelease s' = Matrix_timesRelease s \<and> Matrix_timesPress s' = Matrix_timesPress s)
    \<or> (\<exists>b. hist_bucket (Matrix_divCounter s - lastChangeCounter (Matrix_scanArray s ! key)) = Some b
          \<and> Matrix_repeatThreshold s
               \<le> Matrix_divCounter s - lastChangeCounter (Matrix_scanArray s ! key)
          \<and> ((Matrix_timesRelease s'
                 = (Matrix_timesRelease s)[unat b := Matrix_timesRelease s ! unat b + 1]
               \<and> Matrix_timesPress s' = Matrix_timesPress s)
             \<or> (Matrix_timesPress s'
                 = (Matrix_timesPress s)[unat b := Matrix_timesPress s ! unat b + 1]
               \<and> Matrix_timesRelease s' = Matrix_timesRelease s)))"
  using assms refl
proof (cases rule: scan_key_cases)
  case stored
  then show ?thesis by (simp add: store_key_def)
next
  case suppressed
  then show ?thesis by (simp add: store_key_def)
next
  case (resolved st' s1)
  have s': "Matrix_timesRelease s' = Matrix_timesRelease s1"
    "Matrix_timesPress s' = Matrix_timesPress s1"
    unfolding resolved(5) by (simp_all add: debug_transition_def emit_def store_key_def)
  from resolved(4) show ?thesis
  proof (cases rule: resolve_state_cases)
    case hold
    with s' show ?thesis by simp
  next
    case (release h)
    from release(3) obtain b where
      "hist_bucket (Matrix_divCounter s - lastChangeCounter (Matrix_scanArray s ! key)) = Some b"
      "h = (Matrix_timesRelease s)[unat b := Matrix_timesRelease s ! unat b + 1]"
      by (cases rule: hist_incr_cases) simp
    with s' release(5) resolved(3) show ?thesis by simp
  next
    case (press h)
    from press(3) obtain b where
      "hist_bucket (Matrix_divCounter s - lastChangeCounter (Matrix_scanArray s ! key)) = Some b"
      "h = (Matrix_timesPress s)[unat b := Matrix_timesPress s ! unat b + 1]"
      by (cases rule: hist_incr_cases) simp
    with s' press(5) resolved(3) show ?thesis by simp
  next
    case off
    with s' show ?thesis by simp
  next
    case invalid
    with s' show ?thesis by (simp add: emit_def)
  qed
qed

lemma low_buckets_kept_refl [simp]: "low_buckets_kept s s"
  by (simp add: low_buckets_kept_def)

lemma low_buckets_kept_trans:
  "low_buckets_kept s s1 \<Longrightarrow> Matrix_repeatThreshold s1 = Matrix_repeatThreshold s
     \<Longrightarrow> low_buckets_kept s1 s' \<Longrightarrow> low_buckets_kept s s'"
  by (simp add: low_buckets_kept_def)

lemma scan_key_low_buckets:
  assumes "scan_key cfg scanNum detected key s = Inr s'"
  shows "low_buckets_kept s s'"
  unfolding low_buckets_kept_def
proof (intro allI impI)
  fix i assume i: "2 ^ Suc i \<le> unat (Matrix_repeatThreshold s)"
  from scan_key_hist [OF assms]
  show "Matrix_timesRelease s' ! i = Matrix_timesRelease s ! i
        \<and> Matrix_timesPress s' ! i = Matrix_timesPress s ! i"
  proof (elim disjE exE conjE)
    assume "Matrix_timesRelease s' = Matrix_timesRelease s"
      "Matrix_timesPress s' = Matrix_timesPress s"
    then show ?thesis by simp
  next
    fix b
    assume b: "hist_bucket (Matrix_divCounter s - lastChangeCounter (Matrix_scanArray s ! key))
                 = Some b"
      and d: "Matrix_repeatThreshold s
               \<le> Matrix_divCounter s - lastChangeCounter (Matrix_scanArray s ! key)"
      and h: "Matrix_timesRelease s'
                 = (Matrix_timesRelease s)[unat b := Matrix_timesRelease s ! unat b + 1]"
        "Matrix_timesPress s' = Matrix_timesPress s"
    from bucket_above_threshold [OF b d i] have "i \<noteq> unat b" by simp
    with h show ?thesis by simp
  next
    fix b
    assume b: "hist_bucket (Matrix_divCounter s - lastChangeCounter (Matrix_scanArray s ! key))
                 = Some b"
      and d: "Matrix_repeatThreshold s
               \<le> Matrix_divCounter s - lastChangeCounter (Matrix_scanArray s ! key)"
      and h: "Matrix_timesPress s'
                 = (Matrix_timesPress s)[unat b := Matrix_timesPress s ! unat b + 1]"
        "Matrix_timesRelease s' = Matrix_timesRelease s"
    from bucket_above_threshold [OF b d i] have "i \<noteq> unat b" by simp
    with h show ?thesis by simp
  qed
qed

lemma sense_loop_low_buckets:
  "sense_loop cfg rd scanNum strobe senses s = Inr s' \<Longrightarrow> low_buckets_kept s s'"
proof (induction senses arbitrary: s)
  case Nil
  then show ?case by simp
next
  case (Cons sense senses)
  then obtain s1 where
    s1: "scan_key cfg scanNum (rd strobe sense) (key_index cfg strobe sense) s = Inr s1"
    and rest: "sense_loop cfg rd scanNum strobe senses s1 = Inr s'"
    by (auto split: sum.splits)
  from scan_key_kept [OF s1] have "Matrix_repeatThreshold s1 = Matrix_repeatThreshold s"
    by (simp add: globals_kept_def)
  from low_buckets_kept_trans [OF scan_key_low_buckets [OF s1] this Cons.IH [OF rest]]
  show ?case .
qed

lemma strobe_loop_low_buckets:
  "strobe_loop cfg rd scanNum strobes s = Inr s' \<Longrightarrow> low_buckets_kept s s'"
proof (induction strobes arbitrary: s)
  case Nil
  then show ?case by simp
next
  case (Cons strobe strobes)
  let ?on = "emit [Matrix_pin Type_StrobeOn strobe] s"
  from Cons.prems obtain s1 where
    s1: "sense_loop cfg rd scanNum strobe [0..<Matrix_rowsNum cfg] ?on = Inr s1"
    and rest: "strobe_loop cfg rd scanNum strobes (emit [Matrix_pin Type_StrobeOff strobe] s1)
           = Inr s'"
    by (auto split: sum.splits if_splits)
  let ?off = "emit [Matrix_pin Type_StrobeOff strobe] s1"
  have a: "low_buckets_kept s s1"
    using sense_loop_low_buckets [OF s1] by (simp add: low_buckets_kept_def emit_def)
  have b: "Matrix_repeatThreshold s1 = Matrix_repeatThreshold s"
    using sense_loop_kept [OF s1] by (simp add: globals_kept_def emit_def)
  have c: "low_buckets_kept s1 s'"
    using Cons.IH [OF rest] by (simp add: low_buckets_kept_def emit_def)
  from low_buckets_kept_trans [OF a b c] show ?case .
qed

lemma Matrix_scan_low_buckets:
  assumes "Matrix_scan cfg rd scanNum s = Inr s'"
  shows "low_buckets_kept s s'"
  using assms
proof (cases rule: Matrix_scan_cases)
  case skipped
  then show ?thesis by (simp add: low_buckets_kept_def)
next
  case (scanned s2)
  from strobe_loop_low_buckets [OF scanned(2)] show ?thesis
    by (simp add: low_buckets_kept_def state_table_debug_kept [OF scanned(3)] scan_stats_kept)
qed

lemma run_scans_low_buckets:
  "run_scans cfg calls s = Inr s' \<Longrightarrow> low_buckets_kept s s'"
proof (induction calls arbitrary: s)
  case Nil
  then show ?case by simp
next
  case (Cons call calls)
  then obtain s1 where
    s1: "Matrix_scan cfg (snd call) (fst call) s = Inr s1"
    and rest: "run_scans cfg calls s1 = Inr s'"
    by (auto split: sum.splits)
  from low_buckets_kept_trans [OF Matrix_scan_low_buckets [OF s1]
      Matrix_scan_divCounter(2) [OF s1] Cons.IH [OF rest]]
  show ?case .
qed

text \<open>
  Claim C10. Whenever the scan of a key changes a histogram, the ticks since the key's
  last change are at least \<open>Matrix_repeatThreshold\<close>. With the threshold at its default of
  16, a call of \<open>Matrix_scan\<close> leaves the buckets 0 to 3 of \<open>Matrix_timesRelease\<close> and
  \<open>Matrix_timesPress\<close> as they are, and after \<open>Matrix_setup\<close> and any sequence of calls they
  hold the 0 that \<open>Matrix_setup\<close> stored.
\<close>

theorem low_buckets_never_incremented:
  fixes cfg :: "('w::len) word config"
  shows
    "(scan_key cfg scanNum detected key s = Inr s'
        \<and> (Matrix_timesRelease s' \<noteq> Matrix_timesRelease s
            \<or> Matrix_timesPress s' \<noteq> Matrix_timesPress s) \<longrightarrow>
        Matrix_repeatThreshold s
          \<le> Matrix_divCounter s - lastChangeCounter (Matrix_scanArray s ! key))
     \<and> (Matrix_repeatThreshold s1 = 16 \<and> Matrix_scan cfg rd scanNum s1 = Inr s2 \<and> i < 4 \<longrightarrow>
        Matrix_timesRelease s2 ! i = Matrix_timesRelease s1 ! i
        \<and> Matrix_timesPress s2 ! i = Matrix_timesPress s1 ! i)
     \<and> (Matrix_repeatThreshold s0 = 16 \<and> Matrix_setup cfg s0 = Inr s3
          \<and> run_scans cfg calls s3 = Inr s4 \<and> i < 4 \<longrightarrow>
        Matrix_timesRelease s4 ! i = 0 \<and> Matrix_timesPress s4 ! i = 0)"
proof (intro conjI)
  show "scan_key cfg scanNum detected key s = Inr s'
        \<and> (Matrix_timesRelease s' \<noteq> Matrix_timesRelease s
            \<or> Matrix_timesPress s' \<noteq> Matrix_timesPress s) \<longrightarrow>
        Matrix_repeatThreshold s
          \<le> Matrix_divCounter s - lastChangeCounter (Matrix_scanArray s ! key)"
    using scan_key_hist [of cfg scanNum detected key s s'] by auto
next
  show "Matrix_repeatThreshold s1 = 16 \<and> Matrix_scan cfg rd scanNum s1 = Inr s2 \<and> i < 4 \<longrightarrow>
        Matrix_timesRelease s2 ! i = Matrix_timesRelease s1 ! i
        \<and> Matrix_timesPress s2 ! i = Matrix_timesPress s1 ! i"
  proof
    assume a: "Matrix_repeatThreshold s1 = 16 \<and> Matrix_scan cfg rd scanNum s1 = Inr s2 \<and> i < 4"
    then have "(2::nat) ^ Suc i \<le> 2 ^ 4" by (intro power_increasing) simp_all
    then have i: "2 ^ Suc i \<le> unat (Matrix_repeatThreshold s1)" using a by simp
    from a Matrix_scan_low_buckets [of cfg rd scanNum s1 s2] have "low_buckets_kept s1 s2"
      by simp
    with i show "Matrix_timesRelease s2 ! i = Matrix_timesRelease s1 ! i
        \<and> Matrix_timesPress s2 ! i = Matrix_timesPress s1 ! i"
      by (simp add: low_buckets_kept_def)
  qed
next
  show "Matrix_repeatThreshold s0 = 16 \<and> Matrix_setup cfg s0 = Inr s3
          \<and> run_scans cfg calls s3 = Inr s4 \<and> i < 4 \<longrightarrow>
        Matrix_timesRelease s4 ! i = 0 \<and> Matrix_timesPress s4 ! i = 0"
  proof
    assume a: "Matrix_repeatThreshold s0 = 16 \<and> Matrix_setup cfg s0 = Inr s3
          \<and> run_scans cfg calls s3 = Inr s4 \<and> i < 4"
    then have est: "Matrix_repeatThreshold s3 = 16"
      "Matrix_timesRelease s3 = replicate 32 0" "Matrix_timesPress s3 = replicate 32 0"
      using Matrix_setup_establishes(5,6,7) [of cfg s0 s3] by simp_all
    from a have "(2::nat) ^ Suc i \<le> 2 ^ 4" by (intro power_increasing) simp_all
    then have i: "2 ^ Suc i \<le> unat (Matrix_repeatThreshold s3)"
      using est(1) by simp
    from a run_scans_low_buckets [of cfg calls s3 s4]
    have "low_buckets_kept s3 s4" by simp
    with i a show "Matrix_timesRelease s4 ! i = 0 \<and> Matrix_timesPress s4 ! i = 0"
      by (simp add: low_buckets_kept_def est(2,3))
  qed
qed

theorem low_buckets_never_incremented_witness:
  "(\<exists>s'. scan_key cfg_1x1 1 False 0 (one_key_state KeyState_Press 0 10 100) = Inr s'
       \<and> Matrix_timesRelease s' \<noteq> Matrix_timesRelease (one_key_state KeyState_Press 0 10 100)
       \<and> Matrix_repeatThreshold (one_key_state KeyState_Press 0 10 100)
            \<le> Matrix_divCounter (one_key_state KeyState_Press 0 10 100)
               - lastChangeCounter (Matrix_scanArray (one_key_state KeyState_Press 0 10 100) ! 0))
   \<and> (\<exists>s2. Matrix_scan cfg_1x1 all_closed 1 start_state = Inr s2
       \<and> Matrix_timesRelease s2 ! 3 = Matrix_timesRelease start_state ! 3
       \<and> Matrix_timesPress s2 ! 3 = Matrix_timesPress start_state ! 3)
   \<and> Matrix_setup cfg_1x1 (boot_state cfg_1x1) = Inr start_state
   \<and> (\<exists>s4. run_scans cfg_1x1 [(0, all_closed), (1, all_closed)] start_state = Inr s4
       \<and> Matrix_timesRelease s4 ! 3 = 0 \<and> Matrix_timesPress s4 ! 3 = 0)"
proof -
  let ?s = "one_key_state KeyState_Press 0 10 100"
  have "result_of (\<lambda>s. Matrix_timesRelease s ! 6) (scan_key cfg_1x1 1 False 0 ?s) = Some 1"
    by code_simp
  then obtain s' where key: "scan_key cfg_1x1 1 False 0 ?s = Inr s'"
    and six: "Matrix_timesRelease s' ! 6 = 1"
    by (auto simp: result_of_def split: sum.splits)
  have "Matrix_timesRelease ?s ! 6 = 0"
    by (simp add: one_key_defs)
  with six have changed: "Matrix_timesRelease s' \<noteq> Matrix_timesRelease ?s" by auto
  from Matrix_scan_returns [OF cfg_1x1_ok(1) start_state_ok(1,3)] obtain s2 where
    scan: "Matrix_scan cfg_1x1 all_closed 1 start_state = Inr s2" by blast
  from run_scans_returns [OF cfg_1x1_ok(1) start_state_ok(1,3)] obtain s4 where
    run: "run_scans cfg_1x1 [(0, all_closed), (1, all_closed)] start_state = Inr s4"
    by blast
  have rt0: "Matrix_repeatThreshold (boot_state cfg_1x1) = 16"
    by (simp add: boot_state_def)
  have three: "(3::nat) < 4" by simp
  note inst = low_buckets_never_incremented [where cfg = cfg_1x1 and scanNum = 1
      and detected = False and key = 0 and s = ?s and s' = s' and ?s1.0 = start_state
      and rd = all_closed and ?s2.0 = s2 and i = 3 and ?s0.0 = "boot_state cfg_1x1"
      and ?s3.0 = start_state and calls = "[(0, all_closed), (1, all_closed)]" and ?s4.0 = s4]
  from inst key changed have a: "Matrix_repeatThreshold ?s
            \<le> Matrix_divCounter ?s - lastChangeCounter (Matrix_scanArray ?s ! 0)"
    by blast
  from inst start_state_ok(2) three scan
  have b: "Matrix_timesRelease s2 ! 3 = Matrix_timesRelease start_state ! 3
       \<and> Matrix_timesPress s2 ! 3 = Matrix_timesPress start_state ! 3"
    by blast
  from inst rt0 three start_state_setup run
  have c: "Matrix_timesRelease s4 ! 3 = 0 \<and> Matrix_timesPress s4 ! 3 = 0"
    by blast
  from key changed a scan b run c start_state_setup show ?thesis by blast
qed

end
